theory Spec2Isabelle
  imports Main
begin

section \<open>The generated HDL parser (src/parser/generated/hdl-parser.js)\<close>

text \<open>
  The module is an LR parser driven by a table, with a regular-expression tokenizer and
  semantic actions that build the AST. JavaScript strings are modelled as \<open>string\<close>:
  a list of characters with codes below 256 (the Latin-1 range of JavaScript's code
  units); offsets count characters. Exceptions are values of type \<open>error\<close>.
\<close>

subsection \<open>Values\<close>

datatype error = SyntaxError string | TypeError

text \<open>
  The three module-level arrays \<open>inputs\<close>, \<open>outputs\<close> and \<open>parts\<close> are shared objects:
  the Chip object built by production 1 holds references to them, not copies. A
  reference is a value \<open>Ref r\<close>; the arrays themselves live in the module state
  (\<open>globals\<close> below). Every other array or object is created by one action and owned
  by one stack entry, so it is modelled by value.
\<close>

datatype array_ref = RInputs | ROutputs | RParts

datatype jsval =
    Undefined
  | JTrue
  | Str string
  | Array "jsval list"
  | Ref array_ref
  | Argument (arg_name: jsval) (arg_value: jsval)
  | ChipCall (call_name: jsval) (arguments: jsval)
  | Chip (chip_name: jsval) (chip_inputs: jsval) (chip_outputs: jsval) (chip_parts: jsval)

record loc =
  startOffset :: nat
  endOffset :: nat
  startLine :: nat
  endLine :: nat
  startColumn :: nat
  endColumn :: nat

datatype token_type =
    T_CHIP | T_IN | T_OUT | T_PARTS | T_ID
  | T_LBRACE | T_RBRACE | T_SEMI | T_COLON | T_COMMA | T_LPAREN | T_RPAREN | T_EQ
  | T_EOF

text \<open>
  A token: its type, the matched text, and the six location fields (\<open>tloc\<close>).
  \<open>EOF_TOKEN\<close> is the only token without location fields.
\<close>

record token =
  ttype :: token_type
  tvalue :: string
  tloc :: "loc option"

definition EOF_TOKEN :: token where
  "EOF_TOKEN = \<lparr>ttype = T_EOF, tvalue = [], tloc = None\<rparr>"

subsection \<open>Tokenizer\<close>

text \<open>
  The tokenizer object. \<open>_states\<close> is always \<open>['INITIAL']\<close> and \<open>_tokensQueue\<close> is always
  empty (no lexical rule returns an array or changes state), so they are left out.
\<close>

record tokenizer =
  tstring :: string
  cursor :: nat
  currentLine :: nat
  currentColumn :: nat
  currentLineBeginOffset :: nat
  tokenStartOffset :: nat
  tokenEndOffset :: nat
  tokenStartLine :: nat
  tokenEndLine :: nat
  tokenStartColumn :: nat
  tokenEndColumn :: nat

definition initString :: "string \<Rightarrow> tokenizer" where
  "initString s =
     \<lparr>tstring = s, cursor = 0,
      currentLine = 1, currentColumn = 0, currentLineBeginOffset = 0,
      tokenStartOffset = 0, tokenEndOffset = 0,
      tokenStartLine = 1, tokenEndLine = 1,
      tokenStartColumn = 0, tokenEndColumn = 0\<rparr>"

definition isEOF :: "tokenizer \<Rightarrow> bool" where
  "isEOF tk = (cursor tk = length (tstring tk))"

definition hasMoreTokens :: "tokenizer \<Rightarrow> bool" where
  "hasMoreTokens tk = (cursor tk \<le> length (tstring tk))"

subsubsection \<open>The regular expressions of \<open>lexRules\<close>\<close>

text \<open>
  Each regular expression is anchored at the start of the remaining input; its model
  returns the matched prefix, or \<open>None\<close> when \<open>string.match\<close> returns null.
\<close>

definition newline :: char where
  "newline = CHR 0x0A"

definition is_line_terminator :: "char \<Rightarrow> bool" where
  \<comment> \<open>the characters that \<open>.\<close> does not match\<close>
  "is_line_terminator c = (c = CHR 0x0A \<or> c = CHR 0x0D)"

definition is_space :: "char \<Rightarrow> bool" where
  \<comment> \<open>\<open>\s\<close>: tab, line feed, vertical tab, form feed, carriage return, space, no-break space\<close>
  "is_space c =
     (c = CHR 0x09 \<or> c = CHR 0x0A \<or> c = CHR 0x0B \<or> c = CHR 0x0C \<or> c = CHR 0x0D
      \<or> c = CHR 0x20 \<or> c = CHR 0xA0)"

definition is_word :: "char \<Rightarrow> bool" where
  \<comment> \<open>\<open>\w\<close>: \<open>[A-Za-z0-9_]\<close>\<close>
  "is_word c =
     (let n = (of_char c :: nat)
      in (65 \<le> n \<and> n \<le> 90) \<or> (97 \<le> n \<and> n \<le> 122) \<or> (48 \<le> n \<and> n \<le> 57) \<or> n = 95)"

definition starts_with :: "string \<Rightarrow> string \<Rightarrow> bool" where
  "starts_with p s = (take (length p) s = p)"

definition match_line_comment :: "string \<Rightarrow> string option" where
  \<comment> \<open>\<open>/^\/\/.*/\<close>\<close>
  "match_line_comment s =
     (if starts_with ''//'' s
      then Some (''//'' @ takeWhile (\<lambda>c. \<not> is_line_terminator c) (drop 2 s))
      else None)"

fun upto_close :: "string \<Rightarrow> string option" where
  \<comment> \<open>the shortest prefix that ends with \<open>*/\<close>\<close>
  "upto_close [] = None"
| "upto_close [c] = None"
| "upto_close (c # d # r) =
     (if c = CHR ''*'' \<and> d = CHR ''/'' then Some [c, d]
      else map_option ((#) c) (upto_close (d # r)))"

definition match_block_comment :: "string \<Rightarrow> string option" where
  \<comment> \<open>\<open>/^\/\*(.|\s)*?\*\//\<close>: \<open>(.|\s)\<close> matches every character, and \<open>*?\<close> is lazy\<close>
  "match_block_comment s =
     (if starts_with ''/*'' s
      then map_option ((@) ''/*'') (upto_close (drop 2 s))
      else None)"

definition match_spaces :: "string \<Rightarrow> string option" where
  \<comment> \<open>\<open>/^\s+/\<close>\<close>
  "match_spaces s =
     (let m = takeWhile is_space s in if m = [] then None else Some m)"

definition match_words :: "string \<Rightarrow> string option" where
  \<comment> \<open>\<open>/^\w+/\<close>\<close>
  "match_words s =
     (let m = takeWhile is_word s in if m = [] then None else Some m)"

definition match_lit :: "string \<Rightarrow> string \<Rightarrow> string option" where
  \<comment> \<open>a literal such as \<open>/^CHIP/\<close> or \<open>/^\{/\<close>\<close>
  "match_lit p s = (if starts_with p s then Some p else None)"

text \<open>
  \<open>lexRules\<close>, in the source's order: the regular expression and what the handler
  returns (\<open>None\<close> for the handlers of comments and whitespace, which return nothing).
\<close>

definition lexRules :: "((string \<Rightarrow> string option) \<times> token_type option) list" where
  "lexRules =
     [(match_line_comment, None),
      (match_block_comment, None),
      (match_spaces, None),
      (match_lit ''CHIP'', Some T_CHIP),
      (match_lit ''IN'', Some T_IN),
      (match_lit ''OUT'', Some T_OUT),
      (match_lit ''PARTS'', Some T_PARTS),
      (match_words, Some T_ID),
      (match_lit ''{'', Some T_LBRACE),
      (match_lit ''}'', Some T_RBRACE),
      (match_lit '';'', Some T_SEMI),
      (match_lit '':'', Some T_COLON),
      (match_lit '','', Some T_COMMA),
      (match_lit ''('', Some T_LPAREN),
      (match_lit '')'', Some T_RPAREN),
      (match_lit ''='', Some T_EQ)]"

subsubsection \<open>Locations\<close>

fun captureNewlines :: "nat \<Rightarrow> string \<Rightarrow> tokenizer \<Rightarrow> tokenizer" where
  \<comment> \<open>the \<open>while ((nlMatch = nlRe.exec(matched)) !== null)\<close> loop; \<open>i\<close> is \<open>nlMatch.index\<close>\<close>
  "captureNewlines i [] tk = tk"
| "captureNewlines i (c # cs) tk =
     captureNewlines (i + 1) cs
       (if c = newline
        then tk\<lparr>currentLine := currentLine tk + 1,
                currentLineBeginOffset := tokenStartOffset tk + i + 1\<rparr>
        else tk)"

definition captureLocation :: "tokenizer \<Rightarrow> string \<Rightarrow> tokenizer" where
  "captureLocation tk matched =
     (let tk1 = tk\<lparr>tokenStartOffset := cursor tk,
                    tokenStartLine := currentLine tk,
                    tokenStartColumn := cursor tk - currentLineBeginOffset tk\<rparr>;
          tk2 = captureNewlines 0 matched tk1;
          tk3 = tk2\<lparr>tokenEndOffset := cursor tk2 + length matched,
                     tokenEndLine := currentLine tk2\<rparr>
      in tk3\<lparr>tokenEndColumn := tokenEndOffset tk3 - currentLineBeginOffset tk3,
              currentColumn := tokenEndOffset tk3 - currentLineBeginOffset tk3\<rparr>)"

definition toToken :: "tokenizer \<Rightarrow> token_type \<Rightarrow> string \<Rightarrow> token" where
  "toToken tk tokenType yytext =
     \<lparr>ttype = tokenType, tvalue = yytext,
      tloc = Some \<lparr>startOffset = tokenStartOffset tk, endOffset = tokenEndOffset tk,
                   startLine = tokenStartLine tk, endLine = tokenEndLine tk,
                   startColumn = tokenStartColumn tk, endColumn = tokenEndColumn tk\<rparr>\<rparr>"

definition tk_match :: "tokenizer \<Rightarrow> string \<Rightarrow> (string \<Rightarrow> string option) \<Rightarrow> string option \<times> tokenizer" where
  \<comment> \<open>\<open>_match\<close>: on a match, capture the location and advance the cursor\<close>
  "tk_match tk string regexp =
     (case regexp string of
        Some m \<Rightarrow> (Some m, (captureLocation tk m)\<lparr>cursor := cursor tk + length m\<rparr>)
      | None \<Rightarrow> (None, tk))"

subsubsection \<open>Error messages\<close>

fun split_nl :: "string \<Rightarrow> string list" where
  \<comment> \<open>\<open>string.split('\n')\<close>\<close>
  "split_nl [] = [[]]"
| "split_nl (c # cs) =
     (case split_nl cs of
        [] \<Rightarrow> [[c]]
      | l # ls \<Rightarrow> if c = newline then [] # l # ls else (c # l) # ls)"

fun string_of_nat :: "nat \<Rightarrow> string" where
  \<comment> \<open>a number inside a template literal: its decimal digits\<close>
  "string_of_nat n =
     (if n < 10 then [char_of (48 + n)]
      else string_of_nat (n div 10) @ [char_of (48 + n mod 10)])"

definition unexpected_message :: "string \<Rightarrow> string \<Rightarrow> string \<Rightarrow> string \<Rightarrow> string" where
  \<comment> \<open>the template literal of \<open>throwUnexpectedToken\<close>\<close>
  "unexpected_message lineData symbol line column =
     lineData @ ''Unexpected token: '' @ [CHR 0x22] @ symbol @ [CHR 0x22] @ '' at ''
       @ line @ '':'' @ column @ ''.''"

definition throwUnexpectedToken :: "tokenizer \<Rightarrow> string \<Rightarrow> nat \<Rightarrow> nat \<Rightarrow> error" where
  "throwUnexpectedToken tk symbol line column =
     (let lines = split_nl (tstring tk);
          lineSource = (if 1 \<le> line \<and> line - 1 < length lines then lines ! (line - 1) else []);
          lineData =
            (if lineSource \<noteq> []
             then [newline, newline] @ lineSource @ [newline]
                    @ replicate column CHR '' '' @ ''^'' @ [newline]
             else [])
      in SyntaxError
           (unexpected_message lineData symbol (string_of_nat line) (string_of_nat column)))"

subsubsection \<open>\<open>getNextToken\<close>\<close>

fun scanRules ::
  "((string \<Rightarrow> string option) \<times> token_type option) list \<Rightarrow> string \<Rightarrow> tokenizer
     \<Rightarrow> (string \<times> token_type option \<times> tokenizer) option" where
  \<comment> \<open>the \<open>for\<close> loop over the rules: the first rule that matches wins\<close>
  "scanRules [] string tk = None"
| "scanRules ((regexp, handler) # rules) string tk =
     (case tk_match tk string regexp of
        (None, _) \<Rightarrow> scanRules rules string tk
      | (Some matched, tk') \<Rightarrow>
          Some (matched, handler,
                if string = [] \<and> matched = [] then tk'\<lparr>cursor := cursor tk' + 1\<rparr> else tk'))"


lemma captureNewlines_same:
  "tstring (captureNewlines i m tk) = tstring tk \<and> cursor (captureNewlines i m tk) = cursor tk
   \<and> tokenStartOffset (captureNewlines i m tk) = tokenStartOffset tk"
  by (induction i m tk rule: captureNewlines.induct) simp_all

lemma captureLocation_same:
  "tstring (captureLocation tk m) = tstring tk \<and> cursor (captureLocation tk m) = cursor tk"
  by (simp add: captureLocation_def Let_def captureNewlines_same)

lemma tk_match_Some:
  assumes "tk_match tk s re = (Some m, tk')"
  shows "re s = Some m \<and> tstring tk' = tstring tk \<and> cursor tk' = cursor tk + length m"
  using assms by (auto simp: tk_match_def captureLocation_same split: option.splits)

lemma tk_match_None:
  assumes "tk_match tk s re = (None, tk')"
  shows "re s = None"
  using assms by (auto simp: tk_match_def split: option.splits)

lemma scanRules_Some:
  assumes "scanRules rules s tk = Some (m, h, tk')"
  shows "\<exists>re. (re, h) \<in> set rules \<and> re s = Some m \<and> tstring tk' = tstring tk
           \<and> cursor tk' = cursor tk + length m + (if s = [] \<and> m = [] then 1 else 0)"
  using assms
proof (induction rules)
  case Nil
  then show ?case by simp
next
  case (Cons r rules)
  obtain re hd where r: "r = (re, hd)" by (cases r)
  obtain res tk1 where tm: "tk_match tk s re = (res, tk1)" by (cases "tk_match tk s re")
  show ?case
  proof (cases res)
    case None
    with Cons r tm show ?thesis by auto
  next
    case (Some m1)
    with Cons.prems r tm have eqs: "m1 = m" "hd = h"
      "tk' = (if s = [] \<and> m = [] then tk1\<lparr>cursor := cursor tk1 + 1\<rparr> else tk1)"
      by auto
    from tk_match_Some [of tk s re m1 tk1] tm Some
    have "re s = Some m1 \<and> tstring tk1 = tstring tk \<and> cursor tk1 = cursor tk + length m1"
      by simp
    with eqs r show ?thesis by auto
  qed
qed

lemma upto_close_nonempty: "upto_close s = Some m \<Longrightarrow> m \<noteq> []"
  by (induction s arbitrary: m rule: upto_close.induct) (auto split: if_splits)

lemma lexRules_nonempty:
  assumes "(re, h) \<in> set lexRules" and "re s = Some m"
  shows "m \<noteq> []"
  using assms
  by (auto simp: lexRules_def match_line_comment_def match_block_comment_def match_spaces_def
      match_words_def match_lit_def Let_def split: if_splits)

function getNextToken :: "tokenizer \<Rightarrow> error + token \<times> tokenizer" where
  "getNextToken tk =
     (if \<not> hasMoreTokens tk then Inr (EOF_TOKEN, tk)
      else
        let string = drop (cursor tk) (tstring tk) in
        case scanRules lexRules string tk of
          Some (matched, handler, tk') \<Rightarrow>
            (case handler of
               None \<Rightarrow> getNextToken tk'
             | Some tokenType \<Rightarrow> Inr (toToken tk' tokenType matched, tk'))
        | None \<Rightarrow>
            if isEOF tk then Inr (EOF_TOKEN, tk\<lparr>cursor := cursor tk + 1\<rparr>)
            else Inl (throwUnexpectedToken tk (take 1 string)
                        (currentLine tk) (currentColumn tk)))"
  by pat_completeness auto

termination
proof (relation "measure (\<lambda>tk. Suc (length (tstring tk)) - cursor tk)")
  show "wf (measure (\<lambda>tk. Suc (length (tstring tk)) - cursor tk))" by simp
next
  fix tk :: tokenizer and string x2 matched y handler tk'
  assume more: "\<not> \<not> hasMoreTokens tk"
    and str: "string = drop (cursor tk) (tstring tk)"
    and scan: "scanRules lexRules string tk = Some x2"
    and x2: "(matched, y) = x2" and y: "(handler, tk') = y"
    and "handler = None"
  from scan x2 y have "scanRules lexRules string tk = Some (matched, handler, tk')" by simp
  from scanRules_Some [OF this] obtain re where
    re: "(re, handler) \<in> set lexRules" "re string = Some matched"
    "tstring tk' = tstring tk"
    "cursor tk' = cursor tk + length matched + (if string = [] \<and> matched = [] then 1 else 0)"
    by blast
  from lexRules_nonempty [OF re(1) re(2)] have pos: "0 < length matched" by simp
  from more have le: "cursor tk \<le> length (tstring tk)" by (simp add: hasMoreTokens_def)
  from pos re(4) have c: "cursor tk' = cursor tk + length matched" by simp
  have "Suc (length (tstring tk')) - cursor tk' < Suc (length (tstring tk)) - cursor tk"
    unfolding re(3) c using pos le by linarith
  then show "(tk', tk) \<in> measure (\<lambda>tk. Suc (length (tstring tk)) - cursor tk)"
    by simp
qed


declare getNextToken.simps [simp del]

subsection \<open>Module state and semantic actions\<close>

text \<open>
  The module-level variables that outlive a call of \<open>parse\<close>: the option
  \<open>yy.options.captureLocations\<close>, the results \<open>__\<close> and \<open>__loc\<close> of the last semantic
  action, and the arrays \<open>inputs\<close>, \<open>outputs\<close> and \<open>parts\<close>. (\<open>yytext\<close> and \<open>yyleng\<close>
  are written but never read; \<open>stack\<close> and the tokenizer are reset by every call of
  \<open>parse\<close> and are local to it here.)
\<close>

record globals =
  captureLocations :: bool
  yyresult :: jsval
  yyresultloc :: "loc option"
  inputs :: "jsval list"
  outputs :: "jsval list"
  parts :: "jsval list"

definition initial_globals :: globals where
  \<comment> \<open>the state after the module is loaded\<close>
  "initial_globals =
     \<lparr>captureLocations = True, yyresult = Undefined, yyresultloc = None,
      inputs = [], outputs = [], parts = []\<rparr>"

definition get_array :: "globals \<Rightarrow> array_ref \<Rightarrow> jsval list" where
  "get_array g r = (case r of RInputs \<Rightarrow> inputs g | ROutputs \<Rightarrow> outputs g | RParts \<Rightarrow> parts g)"

definition set_array :: "globals \<Rightarrow> array_ref \<Rightarrow> jsval list \<Rightarrow> globals" where
  "set_array g r xs =
     (case r of RInputs \<Rightarrow> g\<lparr>inputs := xs\<rparr> | ROutputs \<Rightarrow> g\<lparr>outputs := xs\<rparr>
              | RParts \<Rightarrow> g\<lparr>parts := xs\<rparr>)"

definition yyloc :: "globals \<Rightarrow> loc option \<Rightarrow> loc option \<Rightarrow> loc option" where
  "yyloc g start end =
     (if \<not> captureLocations g then None
      else case start of
             None \<Rightarrow> end
           | Some s \<Rightarrow>
               (case end of
                  None \<Rightarrow> Some s
                | Some e \<Rightarrow>
                    Some \<lparr>startOffset = startOffset s, endOffset = endOffset e,
                          startLine = startLine s, endLine = endLine e,
                          startColumn = startColumn s, endColumn = endColumn e\<rparr>))"

definition spread :: "globals \<Rightarrow> jsval \<Rightarrow> error + jsval list" where
  \<comment> \<open>the elements of \<open>...v\<close>: an array's elements, a string's characters; other values
      are not iterable\<close>
  "spread g v =
     (case v of
        Array xs \<Rightarrow> Inr xs
      | Ref r \<Rightarrow> Inr (get_array g r)
      | Str s \<Rightarrow> Inr (map (\<lambda>c. Str [c]) s)
      | _ \<Rightarrow> Inl TypeError)"

definition push_spread :: "array_ref \<Rightarrow> jsval \<Rightarrow> globals \<Rightarrow> error option \<times> globals" where
  \<comment> \<open>\<open>inputs.push(..._2)\<close> and its two siblings\<close>
  "push_spread r v g =
     (case spread g v of
        Inl e \<Rightarrow> (Some e, g)
      | Inr xs \<Rightarrow> (None, set_array g r (get_array g r @ xs)))"

definition push_result :: "jsval \<Rightarrow> jsval \<Rightarrow> globals \<Rightarrow> error option \<times> globals" where
  \<comment> \<open>\<open>_1.push(x); __ = _1\<close>\<close>
  "push_result a x g =
     (case a of
        Array xs \<Rightarrow> (None, g\<lparr>yyresult := Array (xs @ [x])\<rparr>)
      | Ref r \<Rightarrow> (None, (set_array g r (get_array g r @ [x]))\<lparr>yyresult := Ref r\<rparr>)
      | _ \<Rightarrow> (Some TypeError, g))"

type_synonym action = "jsval list \<Rightarrow> loc option list \<Rightarrow> globals \<Rightarrow> error option \<times> globals"

text \<open>
  A semantic action receives the values \<open>_1 \<dots> _n\<close> and the locations
  \<open>_1loc \<dots> _nloc\<close> of the right-hand side (\<open>vs ! 0\<close> is \<open>_1\<close>); both lists have the
  production's length, as \<open>parse\<close> builds them. It returns the module state it
  leaves, and the exception if it throws.
\<close>

definition act_copy :: action where
  \<comment> \<open>\<open>__loc = yyloc(_1loc, _1loc); __ = _1\<close>\<close>
  "act_copy vs ls g = (None, g\<lparr>yyresultloc := yyloc g (ls ! 0) (ls ! 0), yyresult := vs ! 0\<rparr>)"

definition act_chip :: action where
  "act_chip vs ls g =
     (None, g\<lparr>yyresultloc := yyloc g (ls ! 0) (ls ! 4),
            yyresult := Chip (vs ! 1) (Ref RInputs) (Ref ROutputs) (Ref RParts)\<rparr>)"

definition act_inputs :: action where
  "act_inputs vs ls g = push_spread RInputs (vs ! 1) (g\<lparr>yyresultloc := yyloc g (ls ! 0) (ls ! 2)\<rparr>)"

definition act_outputs :: action where
  "act_outputs vs ls g = push_spread ROutputs (vs ! 1) (g\<lparr>yyresultloc := yyloc g (ls ! 0) (ls ! 2)\<rparr>)"

definition act_parts :: action where
  "act_parts vs ls g = push_spread RParts (vs ! 2) (g\<lparr>yyresultloc := yyloc g (ls ! 0) (ls ! 2)\<rparr>)"

definition act_single :: action where
  \<comment> \<open>\<open>__ = [_1]\<close>\<close>
  "act_single vs ls g = (None, g\<lparr>yyresultloc := yyloc g (ls ! 0) (ls ! 0), yyresult := Array [vs ! 0]\<rparr>)"

definition act_push3 :: action where
  \<comment> \<open>\<open>_1.push(_3); __ = _1\<close>\<close>
  "act_push3 vs ls g = push_result (vs ! 0) (vs ! 2) (g\<lparr>yyresultloc := yyloc g (ls ! 0) (ls ! 2)\<rparr>)"

definition act_push2 :: action where
  \<comment> \<open>\<open>_1.push(_2); __ = _1\<close>\<close>
  "act_push2 vs ls g = push_result (vs ! 0) (vs ! 1) (g\<lparr>yyresultloc := yyloc g (ls ! 0) (ls ! 1)\<rparr>)"

definition act_chipcall :: action where
  "act_chipcall vs ls g =
     (None, g\<lparr>yyresultloc := yyloc g (ls ! 0) (ls ! 4), yyresult := ChipCall (vs ! 0) (vs ! 2)\<rparr>)"

definition act_argument :: action where
  "act_argument vs ls g =
     (None, g\<lparr>yyresultloc := yyloc g (ls ! 0) (ls ! 2), yyresult := Argument (vs ! 0) (vs ! 2)\<rparr>)"

text \<open>
  \<open>productions\<close>: the left-hand side's number, the length of the right-hand side and the
  semantic action. Production 2 (three sections) has no action.
\<close>

definition productions :: "(int \<times> nat \<times> action option) list" where
  "productions =
     [(-1, 1, Some act_copy),
      (0, 5, Some act_chip),
      (1, 3, None),
      (2, 1, Some act_copy),
      (2, 1, Some act_copy),
      (2, 1, Some act_copy),
      (3, 3, Some act_inputs),
      (4, 3, Some act_outputs),
      (5, 3, Some act_parts),
      (6, 1, Some act_single),
      (6, 3, Some act_push3),
      (7, 1, Some act_copy),
      (7, 1, Some act_copy),
      (7, 1, Some act_copy),
      (7, 1, Some act_copy),
      (7, 1, Some act_copy),
      (8, 1, Some act_single),
      (8, 2, Some act_push2),
      (9, 5, Some act_chipcall),
      (10, 1, Some act_single),
      (10, 3, Some act_push3),
      (11, 3, Some act_argument)]"

subsection \<open>The parsing table\<close>

definition tokens :: "token_type \<Rightarrow> int" where
  "tokens t =
     (case t of
        T_CHIP \<Rightarrow> 12 | T_IN \<Rightarrow> 13 | T_OUT \<Rightarrow> 14 | T_PARTS \<Rightarrow> 15 | T_ID \<Rightarrow> 16
      | T_LBRACE \<Rightarrow> 17 | T_RBRACE \<Rightarrow> 18 | T_SEMI \<Rightarrow> 19 | T_COLON \<Rightarrow> 20 | T_COMMA \<Rightarrow> 21
      | T_LPAREN \<Rightarrow> 22 | T_RPAREN \<Rightarrow> 23 | T_EQ \<Rightarrow> 24 | T_EOF \<Rightarrow> 25)"

datatype entry = Shift nat | Reduce nat | Accept | Goto nat

definition table :: "(int \<times> entry) list list" where
  "table = [
  [(0, Goto 30), (12, Shift 1)],
  [(7, Goto 2), (12, Shift 32), (13, Shift 33), (14, Shift 34), (15, Shift 35), (16, Shift 31)],
  [(17, Shift 3)],
  [(1, Goto 4), (2, Goto 5), (3, Goto 36), (4, Goto 37), (5, Goto 38), (13, Shift 6), (14, Shift 7), (15, Shift 8)],
  [(18, Shift 39)],
  [(2, Goto 9), (3, Goto 36), (4, Goto 37), (5, Goto 38), (13, Shift 6), (14, Shift 7), (15, Shift 8)],
  [(6, Goto 10), (7, Goto 11), (12, Shift 32), (13, Shift 33), (14, Shift 34), (15, Shift 35), (16, Shift 31)],
  [(6, Goto 14), (7, Goto 11), (12, Shift 32), (13, Shift 33), (14, Shift 34), (15, Shift 35), (16, Shift 31)],
  [(20, Shift 15)],
  [(2, Goto 40), (3, Goto 36), (4, Goto 37), (5, Goto 38), (13, Shift 6), (14, Shift 7), (15, Shift 8)],
  [(19, Shift 41), (21, Shift 12)],
  [(19, Reduce 9), (21, Reduce 9)],
  [(7, Goto 13), (12, Shift 32), (13, Shift 33), (14, Shift 34), (15, Shift 35), (16, Shift 31)],
  [(19, Reduce 10), (21, Reduce 10)],
  [(19, Shift 42), (21, Shift 12)],
  [(8, Goto 16), (9, Goto 17), (16, Shift 18)],
  [(9, Goto 19), (13, Reduce 8), (14, Reduce 8), (15, Reduce 8), (16, Shift 18), (18, Reduce 8)],
  [(13, Reduce 16), (14, Reduce 16), (15, Reduce 16), (16, Reduce 16), (18, Reduce 16)],
  [(22, Shift 20)],
  [(13, Reduce 17), (14, Reduce 17), (15, Reduce 17), (16, Reduce 17), (18, Reduce 17)],
  [(10, Goto 21), (11, Goto 22), (16, Shift 23)],
  [(21, Shift 25), (23, Shift 24)],
  [(21, Reduce 19), (23, Reduce 19)],
  [(24, Shift 28)],
  [(19, Shift 26)],
  [(11, Goto 27), (16, Shift 23)],
  [(13, Reduce 18), (14, Reduce 18), (15, Reduce 18), (16, Reduce 18), (18, Reduce 18)],
  [(21, Reduce 20), (23, Reduce 20)],
  [(16, Shift 29)],
  [(21, Reduce 21), (23, Reduce 21)],
  [(25, Accept)],
  [(17, Reduce 11), (19, Reduce 11), (21, Reduce 11)],
  [(17, Reduce 12), (19, Reduce 12), (21, Reduce 12)],
  [(17, Reduce 13), (19, Reduce 13), (21, Reduce 13)],
  [(17, Reduce 14), (19, Reduce 14), (21, Reduce 14)],
  [(17, Reduce 15), (19, Reduce 15), (21, Reduce 15)],
  [(13, Reduce 3), (14, Reduce 3), (15, Reduce 3), (18, Reduce 3)],
  [(13, Reduce 4), (14, Reduce 4), (15, Reduce 4), (18, Reduce 4)],
  [(13, Reduce 5), (14, Reduce 5), (15, Reduce 5), (18, Reduce 5)],
  [(25, Reduce 1)],
  [(18, Reduce 2)],
  [(13, Reduce 6), (14, Reduce 6), (15, Reduce 6), (18, Reduce 6)],
  [(13, Reduce 7), (14, Reduce 7), (15, Reduce 7), (18, Reduce 7)]]"


subsection \<open>The parser\<close>

text \<open>
  The JavaScript \<open>stack\<close> array alternates state numbers and entries, starting with the
  state 0: \<open>[0, entry, state, entry, state, \<dots>]\<close>. Every push adds an entry and a state,
  every pop removes a state and an entry, so the array is modelled as the list of
  (entry, state) pairs above the bottom state 0, the top first. A stack entry is
  \<open>{symbol, semanticValue, loc}\<close>; the last two may be absent.
\<close>

record stack_entry =
  symbol :: int
  semanticValue :: "jsval option"
  eloc :: "loc option"

type_synonym stack = "(stack_entry \<times> nat) list"

definition top_state :: "stack \<Rightarrow> nat" where
  \<comment> \<open>\<open>stack[stack.length - 1]\<close>\<close>
  "top_state st = (case st of [] \<Rightarrow> 0 | (e, s) # _ \<Rightarrow> s)"

definition table_row :: "nat \<Rightarrow> (int \<times> entry) list option" where
  \<comment> \<open>\<open>table[state]\<close>, undefined beyond the table\<close>
  "table_row state = (if state < length table then Some (table ! state) else None)"

fun pop_entries :: "nat \<Rightarrow> stack \<Rightarrow> (stack_entry list \<times> stack) option" where
  \<comment> \<open>the \<open>while (rhsLength-- > 0)\<close> loop: the popped entries, \<open>_1\<close> first; \<open>None\<close> when
      the stack runs out (reading a field of undefined is a TypeError)\<close>
  "pop_entries 0 st = Some ([], st)"
| "pop_entries (Suc n) [] = None"
| "pop_entries (Suc n) ((e, s) # st) =
     (case pop_entries n st of
        None \<Rightarrow> None
      | Some (es, st') \<Rightarrow> Some (es @ [e], st'))"

definition unexpectedEndOfInput :: error where
  "unexpectedEndOfInput = SyntaxError ''Unexpected end of input.''"

definition unexpectedToken :: "tokenizer \<Rightarrow> token \<Rightarrow> error" where
  "unexpectedToken tk token =
     (if ttype token = T_EOF then unexpectedEndOfInput
      else case tloc token of
             Some l \<Rightarrow> throwUnexpectedToken tk (tvalue token) (startLine l) (startColumn l)
           | None \<Rightarrow>
               SyntaxError (unexpected_message [] (tvalue token) ''undefined'' ''undefined''))"

text \<open>
  The state of the \<open>do \<dots> while\<close> loop: the stack, the current token, the tokenizer and
  the module state. One step either continues with a new state or ends the call, with
  the value returned or the exception thrown, and the module state left behind.
\<close>

type_synonym config = "stack \<times> token \<times> tokenizer \<times> globals"

type_synonym outcome = "(error + jsval) \<times> globals"

definition continue :: "config \<Rightarrow> config + outcome" where
  \<comment> \<open>the loop condition \<open>tokenizer.hasMoreTokens() || stack.length > 1\<close>; when it is
      false the function ends without a return statement\<close>
  "continue c =
     (case c of (st, token, tk, g) \<Rightarrow>
        (if hasMoreTokens tk \<or> st \<noteq> [] then Inl c else Inr (Inr Undefined, g)))"

definition entry_value :: "stack_entry \<Rightarrow> jsval" where
  \<comment> \<open>\<open>stackEntry.semanticValue\<close>, undefined when the entry has none\<close>
  "entry_value e = (case semanticValue e of Some v \<Rightarrow> v | None \<Rightarrow> Undefined)"

definition run_action ::
  "int \<Rightarrow> action option \<Rightarrow> stack_entry list \<Rightarrow> globals
     \<Rightarrow> error option \<times> globals \<times> stack_entry" where
  \<comment> \<open>the semantic action on the popped entries, and \<open>reduceStackEntry\<close>: it has a
      semantic value (the \<open>__\<close> the action leaves) only if the production has an action,
      and a location only if locations are captured as well\<close>
  "run_action lhs act es g =
     (case act of
        None \<Rightarrow> (None, g, \<lparr>symbol = lhs, semanticValue = None, eloc = None\<rparr>)
      | Some a \<Rightarrow>
          (let semanticValueArgs = map entry_value es;
               locationArgs =
                 (if captureLocations g then map eloc es else map (\<lambda>e. None) es)
           in (case a semanticValueArgs locationArgs g of
                 (thrown, g') \<Rightarrow>
                   (thrown, g',
                    \<lparr>symbol = lhs, semanticValue = Some (yyresult g'),
                     eloc = (if captureLocations g then yyresultloc g' else None)\<rparr>))))"

definition reduce_stack ::
  "nat \<Rightarrow> stack \<Rightarrow> globals \<Rightarrow> (error \<times> globals) + (stack \<times> globals)" where
  \<comment> \<open>the reduce branch of the loop body: pop the right-hand side, run the semantic
      action, push the left-hand side with the state \<open>table[nextState][symbolToReduceWith]\<close>.
      A production number beyond \<open>productions\<close>, a stack that runs out, and a missing
      table entry (a state \<open>undefined\<close>, looked up in the next iteration) are TypeErrors.\<close>
  "reduce_stack productionNumber st g =
     (if productionNumber \<ge> length productions then Inl (TypeError, g)
      else
        (case productions ! productionNumber of (lhs, rhsLength, act) \<Rightarrow>
          (case pop_entries rhsLength st of
             None \<Rightarrow> Inl (TypeError, g)
           | Some (es, st') \<Rightarrow>
               (case run_action lhs act es g of
                  (Some e, g', reduceStackEntry) \<Rightarrow> Inl (e, g')
                | (None, g', reduceStackEntry) \<Rightarrow>
                    (case table_row (top_state st') of
                       None \<Rightarrow> Inl (TypeError, g')
                     | Some row \<Rightarrow>
                         (case map_of row lhs of
                            Some (Goto n) \<Rightarrow> Inr ((reduceStackEntry, n) # st', g')
                          | _ \<Rightarrow> Inl (TypeError, g')))))))"

definition reduce :: "nat \<Rightarrow> config \<Rightarrow> config + outcome" where
  "reduce productionNumber c =
     (case c of (st, token, tk, g) \<Rightarrow>
        (case reduce_stack productionNumber st g of
           Inl (e, g') \<Rightarrow> Inr (Inl e, g')
         | Inr (st', g') \<Rightarrow> continue (st', token, tk, g')))"

definition parse_step :: "config \<Rightarrow> config + outcome" where
  "parse_step c =
     (case c of (st, token, tk, g) \<Rightarrow>
        (let state = top_state st; column = tokens (ttype token) in
         (case table_row state of
            None \<Rightarrow> Inr (Inl TypeError, g)
          | Some row \<Rightarrow>
              (case map_of row column of
                 None \<Rightarrow> Inr (Inl (unexpectedToken tk token), g)
               | Some (Shift n) \<Rightarrow>
                   (let loc = (if captureLocations g then tloc token else None);
                        st' = (\<lparr>symbol = column, semanticValue = Some (Str (tvalue token)),
                                eloc = loc\<rparr>, n) # st
                    in (case getNextToken tk of
                          Inl e \<Rightarrow> Inr (Inl e, g)
                        | Inr (token', tk') \<Rightarrow> continue (st', token', tk', g)))
               | Some (Reduce p) \<Rightarrow> reduce p c
               | Some Accept \<Rightarrow>
                   (case st of
                      [(parsed, s)] \<Rightarrow>
                        (if hasMoreTokens tk then Inr (Inl (unexpectedToken tk token), g)
                         else (case semanticValue parsed of
                                 Some v \<Rightarrow> Inr (Inr v, g)
                               | None \<Rightarrow> Inr (Inr JTrue, g)))
                    | _ \<Rightarrow> Inr (Inl (unexpectedToken tk token), g))
               | Some (Goto n) \<Rightarrow> continue c))))"

text \<open>
  The loop itself; \<open>None\<close> stands for a loop that never ends. \<open>parse_lexemes\<close> below
  shows that this does not happen.
\<close>

partial_function (option) parse_loop :: "config \<Rightarrow> outcome option" where
  "parse_loop c =
     (case parse_step c of
        Inl c' \<Rightarrow> parse_loop c'
      | Inr r \<Rightarrow> Some r)"

declare parse_loop.simps [code]

definition parse :: "string \<Rightarrow> globals \<Rightarrow> outcome option" where
  \<comment> \<open>\<open>yyparse.parse(string)\<close>, called without \<open>parseOptions\<close>, in the module state \<open>g\<close>\<close>
  "parse string g =
     (case getNextToken (initString string) of
        Inl e \<Rightarrow> Some (Inl e, g)
      | Inr (token, tk) \<Rightarrow> parse_loop ([], token, tk, g))"

text \<open>The value that a reader of the AST sees in a module state: references followed.\<close>

fun deref :: "globals \<Rightarrow> jsval \<Rightarrow> jsval" where
  "deref g (Ref r) = Array (get_array g r)"
| "deref g (Array xs) = Array (map (deref g) xs)"
| "deref g (Argument n v) = Argument (deref g n) (deref g v)"
| "deref g (ChipCall n a) = ChipCall (deref g n) (deref g a)"
| "deref g (Chip n i ou p) = Chip (deref g n) (deref g i) (deref g ou) (deref g p)"
| "deref g v = v"

definition returned :: "outcome option \<Rightarrow> (error + jsval) option" where
  \<comment> \<open>what the caller holds right after the call: the exception, or the returned value
      as it reads in the module state the call has left\<close>
  "returned r =
     (case r of
        None \<Rightarrow> None
      | Some (Inl e, g) \<Rightarrow> Some (Inl e)
      | Some (Inr v, g) \<Rightarrow> Some (Inr (deref g v)))"

definition first_token :: "string \<Rightarrow> error + token" where
  \<comment> \<open>what the first call of \<open>getNextToken\<close> delivers on an input\<close>
  "first_token s = (case getNextToken (initString s) of Inl e \<Rightarrow> Inl e | Inr (t, tk) \<Rightarrow> Inr t)"

section \<open>Properties of the tokenizer\<close>

subsection \<open>The first matching rule, and the lexemes of a string\<close>

text \<open>
  \<open>first_match\<close> is the rule that \<open>scanRules\<close> selects, without the tokenizer's
  bookkeeping; \<open>lexemes s\<close> lists the tokens that successive calls of \<open>getNextToken\<close>
  deliver on the input \<open>s\<close> (\<open>getNextToken_lexemes\<close> below), and tells whether they are
  followed by a character that no rule matches.
\<close>

fun first_match ::
  "((string \<Rightarrow> string option) \<times> token_type option) list \<Rightarrow> string
     \<Rightarrow> (string \<times> token_type option) option" where
  "first_match [] s = None"
| "first_match ((re, h) # rules) s =
     (case re s of Some m \<Rightarrow> Some (m, h) | None \<Rightarrow> first_match rules s)"

definition advance :: "tokenizer \<Rightarrow> string \<Rightarrow> tokenizer" where
  "advance tk m = (captureLocation tk m)\<lparr>cursor := cursor tk + length m\<rparr>"

lemma scanRules_first_match:
  "scanRules rules s tk =
     (case first_match rules s of
        None \<Rightarrow> None
      | Some (m, h) \<Rightarrow>
          Some (m, h, if s = [] \<and> m = []
                      then (advance tk m)\<lparr>cursor := cursor (advance tk m) + 1\<rparr>
                      else advance tk m))"
  by (induction rules) (auto simp: tk_match_def advance_def split: option.splits)

lemma first_match_in_set:
  "first_match rules s = Some (m, h) \<Longrightarrow> \<exists>re. (re, h) \<in> set rules \<and> re s = Some m"
  by (induction rules) (auto split: option.splits)

lemma upto_close_prefix: "upto_close s = Some m \<Longrightarrow> take (length m) s = m"
  by (induction s arbitrary: m rule: upto_close.induct) (auto split: if_splits)

lemma takeWhile_prefix: "take (length (takeWhile P s)) s = takeWhile P s"
  by (induction s) auto

lemma starts_with_split: "starts_with p s \<Longrightarrow> s = p @ drop (length p) s"
  by (metis starts_with_def append_take_drop_id)

lemma lexRules_prefix:
  assumes "(re, h) \<in> set lexRules" and "re s = Some m"
  shows "take (length m) s = m"
proof -
  have lit: "\<And>p. match_lit p s = Some m \<Longrightarrow> take (length m) s = m"
    by (auto simp: match_lit_def starts_with_def split: if_splits)
  have lc: "match_line_comment s = Some m \<Longrightarrow> take (length m) s = m"
  proof -
    assume a: "match_line_comment s = Some m"
    then have sw: "starts_with ''//'' s" and m: "m = ''//'' @ takeWhile (\<lambda>c. \<not> is_line_terminator c) (drop 2 s)"
      by (auto simp: match_line_comment_def split: if_splits)
    from starts_with_split [OF sw] have s: "s = ''//'' @ drop 2 s" by (simp add: numeral_2_eq_2)
    show ?thesis
      by (subst s) (simp add: m takeWhile_prefix)
  qed
  have bc: "match_block_comment s = Some m \<Longrightarrow> take (length m) s = m"
  proof -
    assume a: "match_block_comment s = Some m"
    then obtain b where sw: "starts_with ''/*'' s" and b: "upto_close (drop 2 s) = Some b" and m: "m = ''/*'' @ b"
      by (auto simp: match_block_comment_def split: if_splits)
    from starts_with_split [OF sw] have s: "s = ''/*'' @ drop 2 s" by (simp add: numeral_2_eq_2)
    show ?thesis
      by (subst s) (simp add: m upto_close_prefix [OF b])
  qed
  have sp: "match_spaces s = Some m \<Longrightarrow> take (length m) s = m"
    by (auto simp: match_spaces_def Let_def takeWhile_prefix split: if_splits)
  have wd: "match_words s = Some m \<Longrightarrow> take (length m) s = m"
    by (auto simp: match_words_def Let_def takeWhile_prefix split: if_splits)
  from assms show ?thesis
    unfolding lexRules_def using lit lc bc sp wd by auto
qed

lemma first_match_lexRules:
  assumes "first_match lexRules s = Some (m, h)"
  shows "m \<noteq> [] \<and> take (length m) s = m"
  using first_match_in_set [OF assms] lexRules_nonempty lexRules_prefix by blast

lemma first_match_lexRules_drop:
  assumes "first_match lexRules s = Some (m, h)"
  shows "length (drop (length m) s) < length s" and "length m \<le> length s"
proof -
  from first_match_lexRules [OF assms] have m: "m \<noteq> []" "take (length m) s = m" by simp_all
  then have "length m \<le> length s" by (metis length_take min.cobounded1)
  with m show "length (drop (length m) s) < length s" "length m \<le> length s" by (cases m; simp)+
qed

function lexemes :: "string \<Rightarrow> (token_type \<times> string) list \<times> bool" where
  "lexemes s =
     (case first_match lexRules s of
        None \<Rightarrow> ([], s \<noteq> [])
      | Some (m, h) \<Rightarrow>
          (case lexemes (drop (length m) s) of
             (ts, bad) \<Rightarrow>
               (case h of None \<Rightarrow> (ts, bad) | Some ty \<Rightarrow> ((ty, m) # ts, bad))))"
  by pat_completeness auto
termination
  by (relation "measure length") (auto dest: first_match_lexRules_drop(1))

declare lexemes.simps [simp del]

lemma advance_same [simp]:
  "tstring (advance tk m) = tstring tk" "cursor (advance tk m) = cursor tk + length m"
  by (simp_all add: advance_def captureLocation_same)

lemma getNextToken_step:
  assumes "cursor tk \<le> length (tstring tk)"
  shows "getNextToken tk =
     (case first_match lexRules (drop (cursor tk) (tstring tk)) of
        None \<Rightarrow>
          if cursor tk = length (tstring tk)
          then Inr (EOF_TOKEN, tk\<lparr>cursor := cursor tk + 1\<rparr>)
          else Inl (throwUnexpectedToken tk (take 1 (drop (cursor tk) (tstring tk)))
                      (currentLine tk) (currentColumn tk))
      | Some (m, None) \<Rightarrow> getNextToken (advance tk m)
      | Some (m, Some ty) \<Rightarrow> Inr (toToken (advance tk m) ty m, advance tk m))"
proof (cases "first_match lexRules (drop (cursor tk) (tstring tk))")
  case None
  with assms show ?thesis
    by (subst getNextToken.simps)
      (simp add: hasMoreTokens_def isEOF_def scanRules_first_match)
next
  case (Some mh)
  obtain m h where mh: "mh = (m, h)" by (cases mh)
  from first_match_lexRules Some mh have "m \<noteq> []" by blast
  with assms Some mh show ?thesis
    by (subst getNextToken.simps)
      (simp add: hasMoreTokens_def scanRules_first_match split: option.splits)
qed

lemma getNextToken_past_end:
  "\<not> cursor tk \<le> length (tstring tk) \<Longrightarrow> getNextToken tk = Inr (EOF_TOKEN, tk)"
  by (subst getNextToken.simps) (simp add: hasMoreTokens_def)

text \<open>
  What the next call of \<open>getNextToken\<close> does, read off the lexemes of the remaining
  input: it delivers the first lexeme, or the end-of-input token, or throws.
\<close>

fun delivers :: "tokenizer \<Rightarrow> (token_type \<times> string) list \<times> bool \<Rightarrow> bool" where
  "delivers tk ((ty, m) # ts, bad) =
     (\<exists>t tk'. getNextToken tk = Inr (t, tk') \<and> ttype t = ty \<and> tvalue t = m
        \<and> tloc t \<noteq> None \<and> tstring tk' = tstring tk
        \<and> cursor tk' \<le> length (tstring tk)
        \<and> lexemes (drop (cursor tk') (tstring tk)) = (ts, bad))"
| "delivers tk ([], False) =
     (\<exists>tk'. getNextToken tk = Inr (EOF_TOKEN, tk') \<and> tstring tk' = tstring tk
        \<and> cursor tk' = length (tstring tk) + 1)"
| "delivers tk ([], True) =
     (\<exists>symbol line column.
        getNextToken tk = Inl (throwUnexpectedToken tk symbol line column))"

lemma throwUnexpectedToken_cong:
  "tstring tk = tstring tk' \<Longrightarrow> throwUnexpectedToken tk = throwUnexpectedToken tk'"
  by (intro ext) (simp add: throwUnexpectedToken_def)

lemma getNextToken_lexemes_aux:
  "s = drop (cursor tk) (tstring tk) \<Longrightarrow> cursor tk \<le> length (tstring tk)
     \<Longrightarrow> delivers tk (lexemes s)"
proof (induction s arbitrary: tk rule: lexemes.induct)
  case (1 s)
  note le = "1.prems"(2) and s = "1.prems"(1)
  show ?case
  proof (cases "first_match lexRules s")
    case None
    then have lx: "lexemes s = ([], s \<noteq> [])" by (subst lexemes.simps) simp
    from s le have e: "(s = []) = (cursor tk = length (tstring tk))" by auto
    from getNextToken_step [OF le] None s
    have g: "getNextToken tk =
        (if cursor tk = length (tstring tk)
         then Inr (EOF_TOKEN, tk\<lparr>cursor := cursor tk + 1\<rparr>)
         else Inl (throwUnexpectedToken tk (take 1 s) (currentLine tk) (currentColumn tk)))"
      by simp
    show ?thesis
    proof (cases "s = []")
      case True
      with lx have "lexemes s = ([], False)" by simp
      moreover from True e g
      have "getNextToken tk = Inr (EOF_TOKEN, tk\<lparr>cursor := cursor tk + 1\<rparr>)" by simp
      ultimately show ?thesis using True e by simp
    next
      case False
      with lx have "lexemes s = ([], True)" by simp
      moreover from False e g
      have "getNextToken tk
          = Inl (throwUnexpectedToken tk (take 1 s) (currentLine tk) (currentColumn tk))"
        by simp
      ultimately show ?thesis by auto
    qed
  next
    case (Some mh)
    obtain m h where mh: "mh = (m, h)" by (cases mh)
    with Some have fm: "first_match lexRules s = Some (m, h)" by simp
    from first_match_lexRules_drop(2) [OF fm] s le
    have le': "cursor (advance tk m) \<le> length (tstring (advance tk m))" by simp
    have s': "drop (length m) s = drop (cursor (advance tk m)) (tstring (advance tk m))"
      by (simp add: s add.commute)
    obtain ts bad where rest: "lexemes (drop (length m) s) = (ts, bad)"
      by (cases "lexemes (drop (length m) s)")
    show ?thesis
    proof (cases h)
      case None
      from "1.IH" [OF fm refl s' le'] have ih: "delivers (advance tk m) (lexemes (drop (length m) s))" .
      have lx: "lexemes s = lexemes (drop (length m) s)"
        by (subst lexemes.simps) (simp add: fm None rest)
      have g: "getNextToken tk = getNextToken (advance tk m)"
        using getNextToken_step [OF le] fm None s by simp
      have "delivers tk lx = delivers (advance tk m) lx" for lx
        by (cases "(tk, lx)" rule: delivers.cases)
          (simp_all add: g throwUnexpectedToken_cong [of "advance tk m" tk])
      with ih lx show ?thesis by simp
    next
      case (Some ty)
      have lx: "lexemes s = ((ty, m) # ts, bad)"
        by (subst lexemes.simps) (simp add: fm Some rest)
      have g: "getNextToken tk = Inr (toToken (advance tk m) ty m, advance tk m)"
        using getNextToken_step [OF le] fm Some s by simp
      show ?thesis
        unfolding lx using g le' rest s'
        by (simp add: toToken_def)
    qed
  qed
qed

lemma getNextToken_lexemes:
  "cursor tk \<le> length (tstring tk) \<Longrightarrow> delivers tk (lexemes (drop (cursor tk) (tstring tk)))"
  by (rule getNextToken_lexemes_aux) simp_all

subsection \<open>What a lexeme looks like\<close>

definition lexeme_ok :: "token_type \<Rightarrow> string \<Rightarrow> bool" where
  "lexeme_ok ty v =
     (case ty of
        T_CHIP \<Rightarrow> v = ''CHIP'' | T_IN \<Rightarrow> v = ''IN'' | T_OUT \<Rightarrow> v = ''OUT''
      | T_PARTS \<Rightarrow> v = ''PARTS''
      | T_ID \<Rightarrow>
          v \<noteq> [] \<and> list_all is_word v \<and> \<not> starts_with ''CHIP'' v \<and> \<not> starts_with ''IN'' v
          \<and> \<not> starts_with ''OUT'' v \<and> \<not> starts_with ''PARTS'' v
      | T_LBRACE \<Rightarrow> v = ''{'' | T_RBRACE \<Rightarrow> v = ''}'' | T_SEMI \<Rightarrow> v = '';''
      | T_COLON \<Rightarrow> v = '':'' | T_COMMA \<Rightarrow> v = '','' | T_LPAREN \<Rightarrow> v = ''(''
      | T_RPAREN \<Rightarrow> v = '')'' | T_EQ \<Rightarrow> v = ''=''
      | T_EOF \<Rightarrow> False)"

lemma starts_with_prefix:
  "starts_with p m \<Longrightarrow> take (length m) s = m \<Longrightarrow> starts_with p s"
  unfolding starts_with_def
  by (metis append_eq_conv_conj append_take_drop_id append.assoc)

lemma match_lit_Some: "match_lit p s = Some m \<longleftrightarrow> starts_with p s \<and> m = p"
  by (auto simp: match_lit_def)

lemma match_lit_None: "match_lit p s = None \<longleftrightarrow> \<not> starts_with p s"
  by (auto simp: match_lit_def)

lemma match_words_Some:
  "match_words s = Some m \<longleftrightarrow> m = takeWhile is_word s \<and> m \<noteq> []"
  by (auto simp: match_words_def Let_def)

lemma first_match_lexeme_ok:
  assumes "first_match lexRules s = Some (m, Some ty)"
  shows "lexeme_ok ty m"
proof -
  have pre: "take (length m) s = m" using first_match_lexRules [OF assms] by simp
  have w: "list_all is_word (takeWhile is_word s)"
    by (simp add: list_all_iff) (meson set_takeWhileD)
  from assms show ?thesis
    unfolding lexRules_def
    by (auto simp: lexeme_ok_def match_lit_Some match_lit_None match_words_Some w
        split: option.splits dest: starts_with_prefix [OF _ takeWhile_prefix])
qed

lemma lexemes_ok:
  "lexemes s = (ts, bad) \<Longrightarrow> (ty, v) \<in> set ts \<Longrightarrow> lexeme_ok ty v"
proof (induction s arbitrary: ts bad rule: lexemes.induct)
  case (1 s)
  show ?case
  proof (cases "first_match lexRules s")
    case None
    with "1.prems" show ?thesis by (subst (asm) lexemes.simps) simp
  next
    case (Some mh)
    obtain m h where mh: "mh = (m, h)" by (cases mh)
    obtain ts' bad' where r: "lexemes (drop (length m) s) = (ts', bad')"
      by (cases "lexemes (drop (length m) s)")
    from "1.prems"(1) Some mh r
    have ts: "(ts, bad) = (case h of None \<Rightarrow> (ts', bad') | Some ty \<Rightarrow> ((ty, m) # ts', bad'))"
      by (subst (asm) lexemes.simps) simp
    show ?thesis
    proof (cases h)
      case None
      with ts have "ts = ts'" by simp
      with "1.IH" [OF Some [unfolded mh] refl r] "1.prems"(2) show ?thesis by simp
    next
      case (Some ty')
      with ts have t: "ts = (ty', m) # ts'" by simp
      from first_match_lexeme_ok \<open>first_match lexRules s = Some mh\<close> mh Some
      have "lexeme_ok ty' m" by simp
      with "1.IH" [OF \<open>first_match lexRules s = Some mh\<close> [unfolded mh] refl r] "1.prems"(2) t
      show ?thesis by auto
    qed
  qed
qed

section \<open>The parser on a list of lexemes\<close>

text \<open>
  The parser reads the input only through the tokens it is handed, and the locations
  never influence the AST. \<open>lx_step\<close> is the loop body of \<open>parse\<close> on a state that holds
  the lexemes still to come in place of the tokenizer (the current token first) and no
  locations; \<open>bad\<close> tells that the lexemes are followed by a character that no rule
  matches. An exception is reduced to its kind. \<open>parse_lexemes\<close> below relates the two
  machines; the table is analysed on this one.
\<close>

datatype thrown = UnexpectedToken | UnexpectedEnd | Other error

type_synonym lexeme = "token_type \<times> string"

type_synonym lx_config = "stack \<times> lexeme list \<times> bool \<times> globals"

type_synonym lx_outcome = "(thrown + jsval) \<times> globals"

definition lx_column :: "lexeme list \<Rightarrow> int" where
  "lx_column toks = (case toks of [] \<Rightarrow> tokens T_EOF | (ty, v) # _ \<Rightarrow> tokens ty)"

definition lx_unexpected :: "lexeme list \<Rightarrow> thrown" where
  "lx_unexpected toks = (if toks = [] then UnexpectedEnd else UnexpectedToken)"

definition lx_step :: "lx_config \<Rightarrow> lx_config + lx_outcome" where
  "lx_step a =
     (case a of (st, toks, bad, g) \<Rightarrow>
        (case table_row (top_state st) of
           None \<Rightarrow> Inr (Inl (Other TypeError), g)
         | Some row \<Rightarrow>
             (case map_of row (lx_column toks) of
                None \<Rightarrow> Inr (Inl (lx_unexpected toks), g)
              | Some (Shift n) \<Rightarrow>
                  (case toks of
                     [] \<Rightarrow>
                       Inl ((\<lparr>symbol = lx_column toks, semanticValue = Some (Str []),
                              eloc = None\<rparr>, n) # st, [], bad, g)
                   | (ty, v) # rest \<Rightarrow>
                       (if rest = [] \<and> bad then Inr (Inl UnexpectedToken, g)
                        else Inl ((\<lparr>symbol = lx_column toks, semanticValue = Some (Str v),
                                    eloc = None\<rparr>, n) # st, rest, bad, g)))
              | Some (Reduce p) \<Rightarrow>
                  (case reduce_stack p st g of
                     Inl (e, g') \<Rightarrow> Inr (Inl (Other e), g')
                   | Inr (st', g') \<Rightarrow> Inl (st', toks, bad, g'))
              | Some Accept \<Rightarrow>
                  (case st of
                     [(parsed, s)] \<Rightarrow>
                       (if toks \<noteq> [] then Inr (Inl UnexpectedToken, g)
                        else (case semanticValue parsed of
                                Some v \<Rightarrow> Inr (Inr v, g)
                              | None \<Rightarrow> Inr (Inr JTrue, g)))
                   | _ \<Rightarrow> Inr (Inl (lx_unexpected toks), g))
              | Some (Goto n) \<Rightarrow>
                  (if toks \<noteq> [] \<or> st \<noteq> [] then Inl a else Inr (Inr Undefined, g)))))"

partial_function (option) lx_loop :: "lx_config \<Rightarrow> lx_outcome option" where
  "lx_loop a =
     (case lx_step a of
        Inl a' \<Rightarrow> lx_loop a'
      | Inr r \<Rightarrow> Some r)"

declare lx_loop.simps [code]

definition erase :: "stack \<Rightarrow> stack" where
  "erase st = map (\<lambda>(e, s). (e\<lparr>eloc := None\<rparr>, s)) st"

definition canon :: "globals \<Rightarrow> globals" where
  "canon g = g\<lparr>captureLocations := False, yyresultloc := None\<rparr>"

definition lx_parse :: "string \<Rightarrow> globals \<Rightarrow> lx_outcome option" where
  "lx_parse string g =
     (case lexemes string of
        (toks, bad) \<Rightarrow>
          if toks = [] \<and> bad then Some (Inl UnexpectedToken, canon g)
          else lx_loop ([], toks, bad, canon g))"

subsection \<open>The two machines agree\<close>

lemma top_state_erase [simp]: "top_state (erase st) = top_state st"
  by (cases st) (auto simp: top_state_def erase_def)

lemma erase_Nil [simp]: "erase st = [] \<longleftrightarrow> st = []"
  by (simp add: erase_def)

lemma erase_Cons [simp]: "erase ((e, s) # st) = (e\<lparr>eloc := None\<rparr>, s) # erase st"
  by (simp add: erase_def)

lemma pop_entries_erase:
  "pop_entries n (erase st) =
     (case pop_entries n st of
        None \<Rightarrow> None
      | Some (es, st') \<Rightarrow> Some (map (\<lambda>e. e\<lparr>eloc := None\<rparr>) es, erase st'))"
proof (induction n st rule: pop_entries.induct)
  case (1 st)
  show ?case by simp
next
  case (2 n)
  show ?case by (simp add: erase_def)
next
  case (3 n e s st)
  then show ?case by (simp split: option.splits)
qed

lemma yyloc_canon [simp]: "yyloc (canon g) a b = None"
  by (simp add: yyloc_def canon_def)

lemma action_canon:
  assumes "(lhs, n, Some act) \<in> set productions"
  shows "act vs ls' (canon g) = (fst (act vs ls g), canon (snd (act vs ls g)))"
proof -
  have ps: "push_spread r v (canon g'\<lparr>yyresultloc := None\<rparr>)
      = (fst (push_spread r v (g'\<lparr>yyresultloc := x\<rparr>)), canon (snd (push_spread r v (g'\<lparr>yyresultloc := x\<rparr>))))"
    for r v g' x
    by (cases r; cases v)
      (simp_all add: push_spread_def spread_def canon_def get_array_def set_array_def
        split: array_ref.splits)
  have pr: "push_result a b (canon g'\<lparr>yyresultloc := None\<rparr>)
      = (fst (push_result a b (g'\<lparr>yyresultloc := x\<rparr>)), canon (snd (push_result a b (g'\<lparr>yyresultloc := x\<rparr>))))"
    for a b g' x
  proof (cases a)
    case (Ref r)
    then show ?thesis
      by (cases r) (simp_all add: push_result_def canon_def get_array_def set_array_def)
  qed (simp_all add: push_result_def canon_def)
  have c: "canon g\<lparr>yyresultloc := None\<rparr> = canon g" by (simp add: canon_def)
  from assms consider "act = act_copy" | "act = act_chip" | "act = act_inputs"
    | "act = act_outputs" | "act = act_parts" | "act = act_single" | "act = act_push3"
    | "act = act_push2" | "act = act_chipcall" | "act = act_argument"
    by (auto simp: productions_def)
  then show ?thesis
  proof cases
    case 1 then show ?thesis by (simp add: act_copy_def canon_def yyloc_def)
  next
    case 2 then show ?thesis by (simp add: act_chip_def canon_def yyloc_def)
  next
    case 3 then show ?thesis using ps [of RInputs _ g] by (simp add: act_inputs_def c)
  next
    case 4 then show ?thesis using ps [of ROutputs _ g] by (simp add: act_outputs_def c)
  next
    case 5 then show ?thesis using ps [of RParts _ g] by (simp add: act_parts_def c)
  next
    case 6 then show ?thesis by (simp add: act_single_def canon_def yyloc_def)
  next
    case 7 then show ?thesis using pr [of _ _ g] by (simp add: act_push3_def c)
  next
    case 8 then show ?thesis using pr [of _ _ g] by (simp add: act_push2_def c)
  next
    case 9 then show ?thesis by (simp add: act_chipcall_def canon_def yyloc_def)
  next
    case 10 then show ?thesis by (simp add: act_argument_def canon_def yyloc_def)
  qed
qed

lemma canon_fields [simp]:
  "captureLocations (canon g) = False" "yyresult (canon g) = yyresult g"
  "inputs (canon g) = inputs g" "outputs (canon g) = outputs g" "parts (canon g) = parts g"
  by (simp_all add: canon_def)

lemma entry_value_erase [simp]: "entry_value (e\<lparr>eloc := l\<rparr>) = entry_value e"
  by (simp add: entry_value_def)

lemma run_action_erase:
  assumes "(lhs, n, act) \<in> set productions"
  shows "run_action lhs act (map (\<lambda>e. e\<lparr>eloc := None\<rparr>) es) (canon g) =
     (case run_action lhs act es g of (thrown, g', e) \<Rightarrow> (thrown, canon g', e\<lparr>eloc := None\<rparr>))"
proof (cases act)
  case None
  then show ?thesis by (simp add: run_action_def)
next
  case (Some a)
  with assms have "(lhs, n, Some a) \<in> set productions" by simp
  note ac = action_canon [OF this]
  have vs: "map entry_value (map (\<lambda>e. e\<lparr>eloc := None\<rparr>) es) = map entry_value es"
    by (simp add: comp_def)
  show ?thesis
    unfolding run_action_def Some option.case Let_def vs
    by (subst ac [where ls = "if captureLocations g then map eloc es else map (\<lambda>e. None) es"])
      (simp add: case_prod_unfold)
qed

lemma reduce_stack_erase:
  "reduce_stack p (erase st) (canon g) =
     (case reduce_stack p st g of
        Inl (e, g') \<Rightarrow> Inl (e, canon g')
      | Inr (st', g') \<Rightarrow> Inr (erase st', canon g'))"
proof (cases "p \<ge> length productions")
  case True
  then show ?thesis by (simp add: reduce_stack_def)
next
  case False
  obtain lhs n act where pr: "productions ! p = (lhs, n, act)"
    by (cases "productions ! p")
  from False pr have mem: "(lhs, n, act) \<in> set productions"
    by (metis nth_mem not_le)
  note ra = run_action_erase [OF mem]
  show ?thesis
  proof (cases "pop_entries n st")
    case None
    with False pr show ?thesis by (simp add: reduce_stack_def pop_entries_erase)
  next
    case (Some r)
    obtain es st' where r: "r = (es, st')" by (cases r)
    obtain thr g' e where res: "run_action lhs act es g = (thr, g', e)"
      by (cases "run_action lhs act es g")
    from False pr Some r res ra [of es g] show ?thesis
      by (simp add: reduce_stack_def pop_entries_erase split: option.splits entry.splits)
  qed
qed

text \<open>
  The current token and the tokenizer of \<open>parse\<close>, against the lexemes still to come:
  the current token is the first lexeme, and the rest is what the tokenizer will deliver;
  with no lexeme left, the current token is \<open>EOF_TOKEN\<close> and the cursor is past the end.
\<close>

definition tok_rel :: "token \<Rightarrow> tokenizer \<Rightarrow> lexeme list \<Rightarrow> bool \<Rightarrow> bool" where
  "tok_rel token tk toks bad =
     (case toks of
        [] \<Rightarrow> token = EOF_TOKEN \<and> \<not> cursor tk \<le> length (tstring tk)
      | (ty, v) # rest \<Rightarrow>
          ttype token = ty \<and> tvalue token = v \<and> tloc token \<noteq> None \<and> ty \<noteq> T_EOF
          \<and> cursor tk \<le> length (tstring tk)
          \<and> lexemes (drop (cursor tk) (tstring tk)) = (rest, bad))"

definition conf_rel :: "string \<Rightarrow> config \<Rightarrow> lx_config \<Rightarrow> bool" where
  "conf_rel s c a =
     (case c of (st, token, tk, g) \<Rightarrow>
        (case a of (ast, toks, bad, ag) \<Rightarrow>
           ast = erase st \<and> ag = canon g \<and> tstring tk = s \<and> tok_rel token tk toks bad))"

fun err_rel :: "string \<Rightarrow> error \<Rightarrow> thrown \<Rightarrow> bool" where
  "err_rel s e UnexpectedEnd = (e = unexpectedEndOfInput)"
| "err_rel s e UnexpectedToken =
     (\<exists>symbol line column. e = throwUnexpectedToken (initString s) symbol line column)"
| "err_rel s e (Other e') = (e = e')"

fun out_rel :: "string \<Rightarrow> outcome \<Rightarrow> lx_outcome \<Rightarrow> bool" where
  "out_rel s (Inr v, g) (r, ag) = (r = Inr v \<and> ag = canon g)"
| "out_rel s (Inl e, g) (r, ag) = ((\<exists>k. r = Inl k \<and> err_rel s e k) \<and> ag = canon g)"

fun step_rel :: "string \<Rightarrow> config + outcome \<Rightarrow> lx_config + lx_outcome \<Rightarrow> bool" where
  "step_rel s (Inl c) (Inl a) = conf_rel s c a"
| "step_rel s (Inr r) (Inr r') = out_rel s r r'"
| "step_rel s _ _ = False"

lemma erase_empty [simp]: "erase [] = []"
  by (simp add: erase_def)

lemma unexpectedToken_rel:
  assumes "tok_rel token tk toks bad"
  shows "err_rel (tstring tk) (unexpectedToken tk token) (lx_unexpected toks)"
proof (cases toks)
  case Nil
  with assms show ?thesis
    by (simp add: tok_rel_def unexpectedToken_def lx_unexpected_def EOF_TOKEN_def)
next
  case (Cons x rest)
  obtain ty v where x: "x = (ty, v)" by (cases x)
  from assms Cons x obtain l where l: "tloc token = Some l" and ty: "ttype token \<noteq> T_EOF"
    by (auto simp: tok_rel_def)
  have "throwUnexpectedToken tk = throwUnexpectedToken (initString (tstring tk))"
    by (rule throwUnexpectedToken_cong) (simp add: initString_def)
  with Cons l ty show ?thesis
    by (auto simp: unexpectedToken_def lx_unexpected_def)
qed

lemma tok_rel_column:
  "tok_rel token tk toks bad \<Longrightarrow> tokens (ttype token) = lx_column toks"
  by (cases toks) (auto simp: tok_rel_def lx_column_def EOF_TOKEN_def)

lemma tok_rel_more:
  "tok_rel token tk toks bad \<Longrightarrow> hasMoreTokens tk \<longleftrightarrow> toks \<noteq> []"
  by (cases toks) (auto simp: tok_rel_def hasMoreTokens_def)

lemma shift_sim:
  assumes tr: "tok_rel token tk toks bad" and s: "tstring tk = s"
  shows "step_rel s
     (case getNextToken tk of
        Inl e \<Rightarrow> Inr (Inl e, g)
      | Inr (token', tk') \<Rightarrow>
          continue ((\<lparr>symbol = lx_column toks, semanticValue = Some (Str (tvalue token)),
                      eloc = l\<rparr>, n) # st, token', tk', g))
     (case toks of
        [] \<Rightarrow>
          Inl ((\<lparr>symbol = lx_column toks, semanticValue = Some (Str []), eloc = None\<rparr>, n)
                 # erase st, [], bad, canon g)
      | (ty, v) # rest \<Rightarrow>
          (if rest = [] \<and> bad then Inr (Inl UnexpectedToken, canon g)
           else Inl ((\<lparr>symbol = lx_column toks, semanticValue = Some (Str v), eloc = None\<rparr>, n)
                       # erase st, rest, bad, canon g)))"
proof (cases toks)
  case Nil
  with tr have t: "token = EOF_TOKEN" and c: "\<not> cursor tk \<le> length (tstring tk)"
    by (simp_all add: tok_rel_def)
  from getNextToken_past_end [OF c] Nil t c s show ?thesis
    by (simp add: continue_def conf_rel_def tok_rel_def EOF_TOKEN_def)
next
  case (Cons x rest)
  obtain ty v where x: "x = (ty, v)" by (cases x)
  from tr Cons x have t: "ttype token = ty" "tvalue token = v"
    and c: "cursor tk \<le> length (tstring tk)"
    and lx: "lexemes (drop (cursor tk) (tstring tk)) = (rest, bad)"
    by (simp_all add: tok_rel_def)
  from getNextToken_lexemes [OF c] lx have d: "delivers tk (rest, bad)" by simp
  show ?thesis
  proof (cases rest)
    case Nil
    show ?thesis
    proof (cases bad)
      case True
      with d Nil obtain symbol line column where
        "getNextToken tk = Inl (throwUnexpectedToken tk symbol line column)" by auto
      moreover have "throwUnexpectedToken tk = throwUnexpectedToken (initString s)"
        by (rule throwUnexpectedToken_cong) (simp add: initString_def s)
      ultimately show ?thesis using Cons x Nil True by auto
    next
      case False
      with d Nil obtain tk' where "getNextToken tk = Inr (EOF_TOKEN, tk')"
        "tstring tk' = tstring tk" "cursor tk' = length (tstring tk) + 1" by auto
      with Cons x Nil False t s show ?thesis
        by (simp add: continue_def conf_rel_def tok_rel_def)
    qed
  next
    case (Cons y rest')
    obtain ty' v' where y: "y = (ty', v')" by (cases y)
    from d Cons y obtain t' tk' where g: "getNextToken tk = Inr (t', tk')"
      "ttype t' = ty'" "tvalue t' = v'" "tloc t' \<noteq> None" "tstring tk' = tstring tk"
      "cursor tk' \<le> length (tstring tk)"
      "lexemes (drop (cursor tk') (tstring tk)) = (rest', bad)" by auto
    from lexemes_ok [OF lx, of ty' v'] Cons y have "ty' \<noteq> T_EOF"
      by (auto simp: lexeme_ok_def)
    with g \<open>toks = x # rest\<close> x Cons y t s show ?thesis
      by (simp add: continue_def conf_rel_def tok_rel_def)
  qed
qed

lemma step_sim:
  assumes "conf_rel s c a"
  shows "step_rel s (parse_step c) (lx_step a)"
proof -
  obtain st token tk g where c: "c = (st, token, tk, g)" by (cases c)
  obtain ast toks bad ag where a: "a = (ast, toks, bad, ag)" by (cases a)
  from assms c a have r: "ast = erase st" "ag = canon g" "tstring tk = s"
    and tr: "tok_rel token tk toks bad"
    by (simp_all add: conf_rel_def)
  note col = tok_rel_column [OF tr]
  show ?thesis
  proof (cases "table_row (top_state st)")
    case None
    then show ?thesis by (simp add: c a r parse_step_def lx_step_def)
  next
    case (Some row)
    show ?thesis
    proof (cases "map_of row (lx_column toks)")
      case None
      with Some col unexpectedToken_rel [OF tr] r show ?thesis
        by (auto simp: c a parse_step_def lx_step_def)
    next
      case (Some en)
      show ?thesis
      proof (cases en)
        case (Shift n)
        from shift_sim [OF tr r(3), of g "tloc token" n st] shift_sim [OF tr r(3), of g None n st]
          \<open>table_row (top_state st) = Some row\<close> Some Shift col
        show ?thesis
          by (simp add: c a r parse_step_def lx_step_def)
      next
        case (Reduce p)
        have "step_rel s (reduce p c) 
            (case reduce_stack p (erase st) (canon g) of
               Inl (e, g') \<Rightarrow> Inr (Inl (Other e), g')
             | Inr (st', g') \<Rightarrow> Inl (st', toks, bad, g'))"
        proof (cases "reduce_stack p st g")
          case (Inl eg)
          then show ?thesis
            by (cases eg) (simp add: reduce_def c reduce_stack_erase)
        next
          case (Inr sg)
          obtain st' g' where sg: "sg = (st', g')" by (cases sg)
          from Inr sg have "st' \<noteq> []"
            by (auto simp: reduce_stack_def split: if_splits prod.splits option.splits entry.splits)
          with Inr sg tr r show ?thesis
            by (simp add: reduce_def c reduce_stack_erase continue_def conf_rel_def)
        qed
        with \<open>table_row (top_state st) = Some row\<close> Some Reduce col
        show ?thesis
          by (simp add: c a r parse_step_def lx_step_def)
      next
        case Accept
        from \<open>table_row (top_state st) = Some row\<close> Some Accept col
          unexpectedToken_rel [OF tr] tok_rel_more [OF tr] r
        show ?thesis
          by (cases st rule: remdups_adj.cases)
            (auto simp: c a parse_step_def lx_step_def lx_unexpected_def split: option.splits)
      next
        case (Goto n)
        from \<open>table_row (top_state st) = Some row\<close> Some Goto col tok_rel_more [OF tr] r tr
        show ?thesis
          by (auto simp: c a parse_step_def lx_step_def continue_def conf_rel_def)
      qed
    qed
  qed
qed

subsection \<open>Facts read off the table\<close>

definition rank :: "nat \<Rightarrow> nat" where
  \<comment> \<open>how many reductions of one symbol to one symbol can follow in a state\<close>
  "rank s =
     (if s \<in> {31, 32, 33, 34, 35} then 2
      else if s \<in> {11, 17, 22, 36, 37, 38} then 1 else 0)"

lemma table_entries:
  "list_all (\<lambda>row. list_all (\<lambda>(col, e).
      case e of
        Shift n \<Rightarrow> n < 43 \<and> 12 \<le> col \<and> col < 25
      | Reduce p \<Rightarrow> 0 < p \<and> p < 22 \<and> 12 \<le> col
      | Accept \<Rightarrow> col = 25
      | Goto n \<Rightarrow> n < 43 \<and> 0 \<le> col \<and> col < 12) row) table"
  by (simp add: table_def)

lemma table_unit_rank:
  "list_all (\<lambda>(s, row). list_all (\<lambda>(col, e).
      case e of
        Reduce p \<Rightarrow>
          (case productions ! p of
             (lhs, n, act) \<Rightarrow>
               n \<noteq> 1 \<or>
               list_all (\<lambda>row'. list_all (\<lambda>(col', e').
                 case e' of Goto m \<Rightarrow> col' \<noteq> lhs \<or> rank m < rank s | _ \<Rightarrow> True) row') table)
      | _ \<Rightarrow> True) row) (enumerate 0 table)"
  by code_simp

lemma productions_rhs:
  "list_all (\<lambda>(lhs, n, act). 1 \<le> n \<and> n \<le> 5) productions"
  by (simp add: productions_def)

lemma length_table: "length table = 43"
  by (simp add: table_def)

lemma length_productions: "length productions = 22"
  by (simp add: productions_def)

lemma table_lookup:
  assumes "table_row s = Some row" and "map_of row col = Some e"
  shows "s < 43" and "row = table ! s" and "row \<in> set table" and "(col, e) \<in> set row"
  using assms
  by (auto simp: table_row_def length_table dest: map_of_SomeD split: if_splits)

lemma table_entry_cases:
  assumes "table_row s = Some row" and "map_of row col = Some e"
  shows "case e of
           Shift n \<Rightarrow> n < 43 \<and> 12 \<le> col \<and> col < 25
         | Reduce p \<Rightarrow> 0 < p \<and> p < 22 \<and> 12 \<le> col
         | Accept \<Rightarrow> col = 25
         | Goto n \<Rightarrow> n < 43 \<and> 0 \<le> col \<and> col < 12"
  using table_entries table_lookup(3,4) [OF assms]
  by (fastforce simp: list_all_iff)

lemma lx_column_range: "12 \<le> lx_column toks \<and> lx_column toks \<le> 25"
  by (cases toks; simp add: lx_column_def tokens_def split: prod.splits token_type.splits)

lemma pop_entries_length:
  "pop_entries n st = Some (es, st') \<Longrightarrow> length st = n + length st' \<and> length es = n"
  by (induction n st arbitrary: es st' rule: pop_entries.induct)
    (auto split: option.splits)

lemma reduce_stack_Inr:
  assumes "reduce_stack p st g = Inr (st', g')"
  obtains lhs n act es st'' e m row where
    "p < length productions" "productions ! p = (lhs, n, act)"
    "pop_entries n st = Some (es, st'')" "st' = (e, m) # st''"
    "run_action lhs act es g = (None, g', e)"
    "table_row (top_state st'') = Some row" "map_of row lhs = Some (Goto m)"
  using assms
  by (auto simp: reduce_stack_def split: if_splits prod.splits option.splits entry.splits)

lemma unit_reduce_rank:
  assumes row: "table_row s = Some row" and e: "map_of row col = Some (Reduce p)"
    and p: "productions ! p = (lhs, 1, act)"
    and row': "table_row s' = Some row'" and g: "map_of row' lhs = Some (Goto m)"
  shows "rank m < rank s"
proof -
  from table_lookup [OF row e] have s: "s < length table" "row = table ! s"
    and mem: "(col, Reduce p) \<in> set row"
    by (simp_all add: length_table)
  from s have "(s, row) \<in> set (enumerate 0 table)"
    by (simp add: in_set_enumerate_eq)
  with table_unit_rank mem p
  have "list_all (\<lambda>row'. list_all (\<lambda>(col', e').
          case e' of Goto m \<Rightarrow> col' \<noteq> lhs \<or> rank m < rank s | _ \<Rightarrow> True) row') table"
    by (fastforce simp: list_all_iff)
  with table_lookup(3,4) [OF row' g] show ?thesis
    by (fastforce simp: list_all_iff)
qed

definition lx_measure :: "(lx_config \<times> lx_config) set" where
  "lx_measure =
     inv_image (less_than <*lex*> less_than <*lex*> less_than)
       (\<lambda>(st, toks, bad, g). (length toks, length st, rank (top_state st)))"

lemma wf_lx_measure: "wf lx_measure"
  unfolding lx_measure_def by (intro wf_inv_image wf_lex_prod wf_less_than)

lemma lx_step_decreases:
  assumes "lx_step a = Inl a'"
  shows "(a', a) \<in> lx_measure"
proof -
  obtain st toks bad g where a: "a = (st, toks, bad, g)" by (cases a)
  from assms a obtain row where row: "table_row (top_state st) = Some row"
    by (auto simp: lx_step_def split: option.splits)
  from assms a row obtain en where en: "map_of row (lx_column toks) = Some en"
    by (auto simp: lx_step_def split: option.splits)
  note tc = table_entry_cases [OF row en] and cr = lx_column_range [of toks]
  show ?thesis
  proof (cases en)
    case (Shift n)
    with tc have "lx_column toks < 25" by simp
    then have "toks \<noteq> []" by (auto simp: lx_column_def tokens_def)
    with assms a row en Shift show ?thesis
      by (auto simp: lx_step_def lx_measure_def split: list.splits if_splits)
  next
    case (Reduce p)
    with assms a row en obtain st' g' where rs: "reduce_stack p st g = Inr (st', g')"
      and a': "a' = (st', toks, bad, g')"
      by (auto simp: lx_step_def split: sum.splits)
    from rs obtain lhs n act es st'' e m row' where r:
      "p < length productions" "productions ! p = (lhs, n, act)"
      "pop_entries n st = Some (es, st'')" "st' = (e, m) # st''"
      "table_row (top_state st'') = Some row'" "map_of row' lhs = Some (Goto m)"
      by (rule reduce_stack_Inr)
    from r(1,2) productions_rhs have n: "1 \<le> n"
      by (metis (mono_tags, lifting) case_prod_conv list_all_length)
    from pop_entries_length [OF r(3)] have len: "length st = n + length st''" by simp
    show ?thesis
    proof (cases "n = 1")
      case True
      with r(3) obtain e0 s0 where st: "st = (e0, s0) # st''"
        by (cases st) (auto split: option.splits)
      from unit_reduce_rank [OF row en [unfolded Reduce] r(2) [unfolded True] r(5,6)]
      have "rank m < rank (top_state st)" .
      with a a' r(4) st show ?thesis
        by (simp add: lx_measure_def top_state_def)
    next
      case False
      with n len r(4) a a' show ?thesis
        by (simp add: lx_measure_def)
    qed
  next
    case Accept
    with assms a row en show ?thesis
      by (auto simp: lx_step_def split: list.splits if_splits option.splits)
  next
    case (Goto n)
    with tc cr show ?thesis by simp
  qed
qed

theorem lx_loop_total: "\<exists>r. lx_loop a = Some r"
proof (induction a rule: wf_induct_rule [OF wf_lx_measure])
  case (1 a)
  show ?case
  proof (cases "lx_step a")
    case (Inl a')
    from lx_step_decreases [OF Inl] "1.IH" have "\<exists>r. lx_loop a' = Some r" by blast
    with Inl show ?thesis by (subst lx_loop.simps) simp
  next
    case (Inr r)
    then show ?thesis by (subst lx_loop.simps) simp
  qed
qed

lemma loop_sim:
  "conf_rel s c a \<Longrightarrow> \<exists>r r'. parse_loop c = Some r \<and> lx_loop a = Some r' \<and> out_rel s r r'"
proof (induction a arbitrary: c rule: wf_induct_rule [OF wf_lx_measure])
  case (1 a)
  from step_sim [OF "1.prems"] have sr: "step_rel s (parse_step c) (lx_step a)" .
  show ?case
  proof (cases "lx_step a")
    case (Inl a')
    with sr obtain c' where c': "parse_step c = Inl c'" and rel: "conf_rel s c' a'"
      by (cases "parse_step c") auto
    from "1.IH" [OF lx_step_decreases [OF Inl] rel]
    obtain r r' where "parse_loop c' = Some r" "lx_loop a' = Some r'" "out_rel s r r'"
      by blast
    with Inl c' show ?thesis
      by (subst parse_loop.simps, subst lx_loop.simps) simp
  next
    case (Inr r')
    with sr obtain r where "parse_step c = Inr r" "out_rel s r r'"
      by (cases "parse_step c") auto
    with Inr show ?thesis
      by (subst parse_loop.simps, subst lx_loop.simps) simp
  qed
qed

text \<open>
  \<open>parse\<close> always ends, and its outcome is the outcome of \<open>lx_parse\<close> on the lexemes of the
  input: the same value and the same arrays; the same kind of exception.
\<close>

theorem parse_lexemes:
  "\<exists>r r'. parse s g = Some r \<and> lx_parse s g = Some r' \<and> out_rel s r r'"
proof -
  obtain toks bad where lx: "lexemes s = (toks, bad)" by (cases "lexemes s")
  have c: "cursor (initString s) \<le> length (tstring (initString s))"
    by (simp add: initString_def)
  from getNextToken_lexemes [OF c] lx have d: "delivers (initString s) (toks, bad)"
    by (simp add: initString_def)
  have th: "throwUnexpectedToken (initString s) = throwUnexpectedToken (initString s)" ..
  show ?thesis
  proof (cases toks)
    case Nil
    show ?thesis
    proof (cases bad)
      case True
      with d Nil obtain symbol line column where
        "getNextToken (initString s) = Inl (throwUnexpectedToken (initString s) symbol line column)"
        by auto
      with lx Nil True show ?thesis
        by (auto simp: parse_def lx_parse_def)
    next
      case False
      with d Nil obtain tk' where g: "getNextToken (initString s) = Inr (EOF_TOKEN, tk')"
        "tstring tk' = s" "cursor tk' = length s + 1"
        by (auto simp: initString_def)
      then have "conf_rel s ([], EOF_TOKEN, tk', g) ([], [], bad, canon g)"
        by (simp add: conf_rel_def tok_rel_def)
      from loop_sim [OF this] g lx Nil False show ?thesis
        by (simp add: parse_def lx_parse_def)
    qed
  next
    case (Cons x rest)
    obtain ty v where x: "x = (ty, v)" by (cases x)
    from d Cons x obtain t tk' where g: "getNextToken (initString s) = Inr (t, tk')"
      "ttype t = ty" "tvalue t = v" "tloc t \<noteq> None" "tstring tk' = s"
      "cursor tk' \<le> length s" "lexemes (drop (cursor tk') s) = (rest, bad)"
      by (auto simp: initString_def)
    from lexemes_ok [OF lx, of ty v] Cons x have "ty \<noteq> T_EOF"
      by (auto simp: lexeme_ok_def)
    with g have "conf_rel s ([], t, tk', g) ([], (ty, v) # rest, bad, canon g)"
      by (simp add: conf_rel_def tok_rel_def)
    from loop_sim [OF this] g lx Cons x show ?thesis
      by (simp add: parse_def lx_parse_def)
  qed
qed

lemma deref_canon [simp]: "deref (canon g) v = deref g v"
  by (induction g v rule: deref.induct) (simp_all add: get_array_def split: array_ref.splits)

lemma parse_returns:
  assumes "lx_parse s g = Some (Inr v, ag)"
  shows "returned (parse s g) = Some (Inr (deref ag v))"
proof -
  from parse_lexemes [of s g] assms obtain r where r: "parse s g = Some r"
    and o: "out_rel s r (Inr v, ag)" by auto
  obtain res g' where rg: "r = (res, g')" by (cases r)
  from o rg have "res = Inr v" "ag = canon g'" by (cases res; simp)+
  with r rg show ?thesis by (simp add: returned_def)
qed

lemma parse_throws:
  assumes "lx_parse s g = Some (Inl k, ag)"
  shows "\<exists>e. returned (parse s g) = Some (Inl e) \<and> err_rel s e k"
proof -
  from parse_lexemes [of s g] assms obtain r where r: "parse s g = Some r"
    and o: "out_rel s r (Inl k, ag)" by auto
  obtain res g' where rg: "r = (res, g')" by (cases r)
  from o rg obtain e where "res = Inl e" "err_rel s e k" by (cases res) auto
  with r rg show ?thesis by (simp add: returned_def)
qed

subsection \<open>Locations\<close>

text \<open>
  The line and the column of an offset, counted on the input itself: the line is one
  more than the number of line feeds before the offset, the column is the number of
  characters between the last of these line feeds (or the start of the input) and the
  offset.
\<close>

definition line_of :: "string \<Rightarrow> nat \<Rightarrow> nat" where
  "line_of s i = 1 + length (filter (\<lambda>c. c = newline) (take i s))"

definition column_of :: "string \<Rightarrow> nat \<Rightarrow> nat" where
  "column_of s i = length (takeWhile (\<lambda>c. c \<noteq> newline) (rev (take i s)))"

definition tk_inv :: "tokenizer \<Rightarrow> bool" where
  "tk_inv tk =
     (cursor tk \<le> length (tstring tk)
      \<and> currentLine tk = line_of (tstring tk) (cursor tk)
      \<and> currentLineBeginOffset tk = cursor tk - column_of (tstring tk) (cursor tk)
      \<and> currentColumn tk = column_of (tstring tk) (cursor tk))"

lemma column_of_le: "column_of s i \<le> i"
proof -
  have "column_of s i \<le> length (rev (take i s))"
    unfolding column_of_def by (rule length_takeWhile_le)
  then show ?thesis by simp
qed

lemma column_of_0 [simp]: "column_of s 0 = 0"
  by (simp add: column_of_def)

lemma line_of_0 [simp]: "line_of s 0 = 1"
  by (simp add: line_of_def)

lemma column_of_after_newline:
  assumes "0 < i" and "i \<le> length s" and "s ! (i - 1) = newline"
  shows "column_of s i = 0"
proof -
  from assms have "take i s = take (i - 1) s @ [newline]"
    by (metis Suc_pred' diff_less less_le_trans take_Suc_conv_app_nth zero_less_one)
  then show ?thesis by (simp add: column_of_def)
qed

lemma captureNewlines_other:
  "currentColumn (captureNewlines i m tk) = currentColumn tk
   \<and> tokenStartLine (captureNewlines i m tk) = tokenStartLine tk
   \<and> tokenStartColumn (captureNewlines i m tk) = tokenStartColumn tk
   \<and> tokenEndOffset (captureNewlines i m tk) = tokenEndOffset tk
   \<and> tokenEndLine (captureNewlines i m tk) = tokenEndLine tk
   \<and> tokenEndColumn (captureNewlines i m tk) = tokenEndColumn tk"
  by (induction i m tk rule: captureNewlines.induct) simp_all

lemma captureNewlines_lines:
  "length p = tokenStartOffset tk + i
   \<Longrightarrow> currentLine tk = 1 + length (filter (\<lambda>c. c = newline) p)
   \<Longrightarrow> currentLineBeginOffset tk = length p - length (takeWhile (\<lambda>c. c \<noteq> newline) (rev p))
   \<Longrightarrow> currentLine (captureNewlines i m tk) = 1 + length (filter (\<lambda>c. c = newline) (p @ m))
     \<and> currentLineBeginOffset (captureNewlines i m tk)
         = length (p @ m) - length (takeWhile (\<lambda>c. c \<noteq> newline) (rev (p @ m)))"
proof (induction i m tk arbitrary: p rule: captureNewlines.induct)
  case (1 i tk)
  then show ?case by simp
next
  case (2 i c cs tk)
  let ?tk = "if c = newline
        then tk\<lparr>currentLine := currentLine tk + 1,
                currentLineBeginOffset := tokenStartOffset tk + i + 1\<rparr>
        else tk"
  have a: "length (p @ [c]) = tokenStartOffset ?tk + (i + 1)"
    using "2.prems"(1) by simp
  have b: "currentLine ?tk = 1 + length (filter (\<lambda>c. c = newline) (p @ [c]))"
    using "2.prems"(2) by simp
  have "length (takeWhile (\<lambda>c. c \<noteq> newline) (rev p)) \<le> length p"
    by (metis length_rev length_takeWhile_le)
  then have c: "currentLineBeginOffset ?tk
      = length (p @ [c]) - length (takeWhile (\<lambda>c. c \<noteq> newline) (rev (p @ [c])))"
    using "2.prems"(1,3) by simp
  from "2.IH" [OF a b c] show ?case by simp
qed

lemma advance_locations:
  assumes inv: "tk_inv tk" and pre: "take (length m) (drop (cursor tk) (tstring tk)) = m"
  shows "tk_inv (advance tk m)"
    and "tokenStartOffset (advance tk m) = cursor tk"
    and "tokenEndOffset (advance tk m) = cursor tk + length m"
    and "tokenStartLine (advance tk m) = line_of (tstring tk) (cursor tk)"
    and "tokenStartColumn (advance tk m) = column_of (tstring tk) (cursor tk)"
    and "tokenEndLine (advance tk m) = line_of (tstring tk) (cursor tk + length m)"
    and "tokenEndColumn (advance tk m) = column_of (tstring tk) (cursor tk + length m)"
    and "cursor tk + length m \<le> length (tstring tk)"
proof -
  let ?s = "tstring tk" and ?c = "cursor tk"
  let ?tk1 = "tk\<lparr>tokenStartOffset := ?c, tokenStartLine := currentLine tk,
                  tokenStartColumn := ?c - currentLineBeginOffset tk\<rparr>"
  let ?tk2 = "captureNewlines 0 m ?tk1"
  from inv have le: "?c \<le> length ?s" by (simp add: tk_inv_def)
  from arg_cong [OF pre, of length] have "length m \<le> length (drop ?c ?s)"
    by (simp add: min_def split: if_splits)
  with le show len: "?c + length m \<le> length ?s" by simp
  from pre have pm: "take ?c ?s @ m = take (?c + length m) ?s"
    by (metis take_add)
  have lp: "length (take ?c ?s) = tokenStartOffset ?tk1 + 0" using le by simp
  have l1: "currentLine ?tk1 = 1 + length (filter (\<lambda>c. c = newline) (take ?c ?s))"
    using inv by (simp add: tk_inv_def line_of_def)
  have l2: "currentLineBeginOffset ?tk1
      = length (take ?c ?s) - length (takeWhile (\<lambda>c. c \<noteq> newline) (rev (take ?c ?s)))"
    using inv le by (simp add: tk_inv_def column_of_def)
  from captureNewlines_lines [OF lp l1 l2, of m]
  have cl: "currentLine ?tk2 = line_of ?s (?c + length m)"
    and cb: "currentLineBeginOffset ?tk2 = (?c + length m) - column_of ?s (?c + length m)"
    using len by (simp_all add: pm line_of_def column_of_def)
  note same = captureNewlines_same [of 0 m ?tk1] and other = captureNewlines_other [of 0 m ?tk1]
  have col: "column_of ?s (?c + length m) \<le> ?c + length m" by (rule column_of_le)
  have col0: "column_of ?s ?c \<le> ?c" by (rule column_of_le)
  have adv: "advance tk m =
      ?tk2\<lparr>tokenEndOffset := ?c + length m, tokenEndLine := currentLine ?tk2,
            tokenEndColumn := (?c + length m) - currentLineBeginOffset ?tk2,
            currentColumn := (?c + length m) - currentLineBeginOffset ?tk2,
            cursor := ?c + length m\<rparr>"
    using same by (simp add: advance_def captureLocation_def Let_def)
  show "tk_inv (advance tk m)"
    unfolding adv using same cl cb col len by (simp add: tk_inv_def)
  show "tokenStartOffset (advance tk m) = ?c" unfolding adv using same by simp
  show "tokenEndOffset (advance tk m) = ?c + length m" unfolding adv by simp
  show "tokenStartLine (advance tk m) = line_of ?s ?c"
    unfolding adv using other inv by (simp add: tk_inv_def)
  show "tokenStartColumn (advance tk m) = column_of ?s ?c"
    unfolding adv using other inv col0 by (simp add: tk_inv_def)
  show "tokenEndLine (advance tk m) = line_of ?s (?c + length m)"
    unfolding adv using cl by simp
  show "tokenEndColumn (advance tk m) = column_of ?s (?c + length m)"
    unfolding adv using cb col by simp
qed

text \<open>
  A token is \<open>located\<close> in the input when its offsets delimit its text, its lines are the
  lines of its offsets and its columns the columns of its offsets.
\<close>

definition located :: "string \<Rightarrow> token \<Rightarrow> bool" where
  "located s t =
     (case tloc t of
        None \<Rightarrow> False
      | Some l \<Rightarrow>
          startOffset l < endOffset l \<and> endOffset l \<le> length s
          \<and> tvalue t = take (endOffset l - startOffset l) (drop (startOffset l) s)
          \<and> startLine l = line_of s (startOffset l)
          \<and> startColumn l = column_of s (startOffset l)
          \<and> endLine l = line_of s (endOffset l)
          \<and> endColumn l = column_of s (endOffset l))"

text \<open>
  \<open>match_starts s\<close> lists the offsets at which the tokenizer looks for a match on the
  input \<open>s\<close>: the start of the input, and the end of every match (a token, a run of
  blanks or a comment). The last of them is the offset where no rule matches: the end
  of the input, or a character that the tokenizer rejects; \<open>lex_error s\<close> is the
  exception that reports this character with its line and its column.
\<close>

function match_starts :: "string \<Rightarrow> nat list" where
  "match_starts s =
     0 # (case first_match lexRules s of
            None \<Rightarrow> []
          | Some (m, h) \<Rightarrow> map (\<lambda>i. length m + i) (match_starts (drop (length m) s)))"
  by pat_completeness auto
termination
  by (relation "measure length") (auto dest: first_match_lexRules_drop(1))

declare match_starts.simps [simp del]

definition lex_error :: "string \<Rightarrow> error" where
  "lex_error s =
     (let c = last (match_starts s)
      in throwUnexpectedToken (initString s) (take 1 (drop c s)) (line_of s c) (column_of s c))"

fun nth_call :: "tokenizer \<Rightarrow> nat \<Rightarrow> error + token \<times> tokenizer" where
  \<comment> \<open>the call number \<open>n + 1\<close> of \<open>getNextToken\<close>: what it delivers and the state it leaves\<close>
  "nth_call tk 0 = getNextToken tk"
| "nth_call tk (Suc n) =
     (case getNextToken tk of Inl e \<Rightarrow> Inl e | Inr (t, tk') \<Rightarrow> nth_call tk' n)"

fun nth_token :: "tokenizer \<Rightarrow> nat \<Rightarrow> error + token" where
  \<comment> \<open>what the call number \<open>n + 1\<close> of \<open>getNextToken\<close> delivers\<close>
  "nth_token tk 0 = (case getNextToken tk of Inl e \<Rightarrow> Inl e | Inr (t, tk') \<Rightarrow> Inr t)"
| "nth_token tk (Suc n) =
     (case getNextToken tk of Inl e \<Rightarrow> Inl e | Inr (t, tk') \<Rightarrow> nth_token tk' n)"

lemma nth_token_call:
  "nth_token tk n = (case nth_call tk n of Inl e \<Rightarrow> Inl e | Inr (t, tk') \<Rightarrow> Inr t)"
  by (induction n arbitrary: tk) (auto split: sum.splits)

lemma nth_call_Suc:
  "nth_call tk n = Inr (t, tk') \<Longrightarrow> nth_call tk (Suc n) = getNextToken tk'"
proof (induction n arbitrary: tk)
  case 0
  then show ?case by simp
next
  case (Suc n)
  from Suc.prems obtain t1 tk1 where g: "getNextToken tk = Inr (t1, tk1)"
    and n: "nth_call tk1 n = Inr (t, tk')"
    by (auto split: sum.splits)
  from Suc.IH [OF n] have "nth_call tk1 (Suc n) = getNextToken tk'" .
  with g show ?case by simp
qed

lemma nth_call_past_end:
  "\<not> cursor tk \<le> length (tstring tk) \<Longrightarrow> nth_call tk n = Inr (EOF_TOKEN, tk)"
  by (induction n) (simp_all add: getNextToken_past_end)

lemma match_starts_None: "first_match lexRules s = None \<Longrightarrow> match_starts s = [0]"
  by (subst match_starts.simps) simp

lemma match_starts_Some:
  "first_match lexRules s = Some (m, h)
     \<Longrightarrow> match_starts s = 0 # map (\<lambda>i. length m + i) (match_starts (drop (length m) s))"
  by (subst match_starts.simps) simp

lemma match_starts_0: "0 \<in> set (match_starts s)"
  by (subst match_starts.simps) simp

lemma match_starts_nonempty: "match_starts s \<noteq> []"
  by (subst match_starts.simps) simp

lemma match_starts_step:
  "k \<in> set (match_starts s) \<Longrightarrow> first_match lexRules (drop k s) = Some (m, h)
     \<Longrightarrow> k + length m \<in> set (match_starts s)"
proof (induction s arbitrary: k rule: match_starts.induct)
  case (1 s)
  show ?case
  proof (cases "first_match lexRules s")
    case None
    with "1.prems" show ?thesis by (simp add: match_starts_None)
  next
    case (Some mh)
    obtain m0 h0 where mh: "mh = (m0, h0)" by (cases mh)
    note ms = match_starts_Some [OF Some [unfolded mh]]
    show ?thesis
    proof (cases "k = 0")
      case True
      with "1.prems"(2) Some mh have "m = m0" by simp
      with True ms match_starts_0 [of "drop (length m0) s"] show ?thesis
        by (simp add: image_iff)
    next
      case False
      with "1.prems"(1) ms obtain k' where k': "k' \<in> set (match_starts (drop (length m0) s))"
        and k: "k = length m0 + k'" by auto
      from "1.prems"(2) k have "first_match lexRules (drop k' (drop (length m0) s)) = Some (m, h)"
        by (simp add: add.commute)
      from "1.IH" [OF Some [unfolded mh] refl k' this] k ms show ?thesis
        by (simp add: image_iff add.assoc)
    qed
  qed
qed

lemma match_starts_last:
  "k \<in> set (match_starts s) \<Longrightarrow> last (match_starts s) = k + last (match_starts (drop k s))"
proof (induction s arbitrary: k rule: match_starts.induct)
  case (1 s)
  show ?case
  proof (cases "first_match lexRules s")
    case None
    with "1.prems" show ?thesis by (simp add: match_starts_None)
  next
    case (Some mh)
    obtain m0 h0 where mh: "mh = (m0, h0)" by (cases mh)
    note ms = match_starts_Some [OF Some [unfolded mh]]
    show ?thesis
    proof (cases "k = 0")
      case True
      then show ?thesis by simp
    next
      case False
      with "1.prems"(1) ms obtain k' where k': "k' \<in> set (match_starts (drop (length m0) s))"
        and k: "k = length m0 + k'" by auto
      from "1.IH" [OF Some [unfolded mh] refl k']
      have "last (match_starts (drop (length m0) s))
          = k' + last (match_starts (drop k' (drop (length m0) s)))" .
      with ms k match_starts_nonempty [of "drop (length m0) s"] show ?thesis
        by (simp add: last_map add.commute add.assoc)
    qed
  qed
qed

definition tk_ok :: "tokenizer \<Rightarrow> bool" where
  "tk_ok tk = (tk_inv tk \<and> cursor tk \<in> set (match_starts (tstring tk)))"

text \<open>
  What a call of \<open>getNextToken\<close> delivers on the input \<open>s\<close>: the exception \<open>lex_error s\<close>;
  or the end-of-input token, with the cursor past the end; or a token that is located in
  \<open>s\<close>, with a tokenizer whose current line and column are those of its cursor.
\<close>

fun call_ok :: "string \<Rightarrow> error + token \<times> tokenizer \<Rightarrow> bool" where
  "call_ok s (Inl e) = (e = lex_error s \<and> last (match_starts s) < length s)"
| "call_ok s (Inr (t, tk')) =
     (tstring tk' = s
      \<and> (if ttype t = T_EOF then t = EOF_TOKEN \<and> \<not> cursor tk' \<le> length s
          else tk_ok tk' \<and> located s t \<and> lexeme_ok (ttype t) (tvalue t)))"

lemma getNextToken_ok:
  assumes "tk_ok tk"
  shows "call_ok (tstring tk) (getNextToken tk)"
  using assms
proof (induction "length (tstring tk) - cursor tk" arbitrary: tk rule: less_induct)
  case less
  let ?s = "tstring tk" and ?c = "cursor tk"
  from less.prems have inv: "tk_inv tk" and b: "?c \<in> set (match_starts ?s)"
    by (simp_all add: tk_ok_def)
  from inv have le: "?c \<le> length ?s" by (simp add: tk_inv_def)
  note step = getNextToken_step [OF le]
  show ?case
  proof (cases "first_match lexRules (drop ?c ?s)")
    case None
    from match_starts_last [OF b] match_starts_None [OF None]
    have last: "last (match_starts ?s) = ?c" by simp
    show ?thesis
    proof (cases "?c = length ?s")
      case True
      with step None show ?thesis by (simp add: EOF_TOKEN_def)
    next
      case False
      with le have lt: "?c < length ?s" by simp
      have "throwUnexpectedToken tk = throwUnexpectedToken (initString ?s)"
        by (rule throwUnexpectedToken_cong) (simp add: initString_def)
      with step None False inv have "getNextToken tk = Inl (lex_error ?s)"
        by (simp add: tk_inv_def lex_error_def Let_def last)
      with lt last show ?thesis by simp
    qed
  next
    case (Some mh)
    obtain m h where mh: "mh = (m, h)" by (cases mh)
    with Some have fm: "first_match lexRules (drop ?c ?s) = Some (m, h)" by simp
    from first_match_lexRules [OF fm] have m: "m \<noteq> []"
      and pre: "take (length m) (drop ?c ?s) = m" by simp_all
    note al = advance_locations [OF inv pre]
    from match_starts_step [OF b fm] al(1) have ok': "tk_ok (advance tk m)"
      by (simp add: tk_ok_def)
    show ?thesis
    proof (cases h)
      case None
      from m al(8) have "length (tstring (advance tk m)) - cursor (advance tk m) < length ?s - ?c"
        by (cases m) simp_all
      from less.hyps [OF this ok'] step fm None show ?thesis by simp
    next
      case (Some ty)
      from first_match_lexeme_ok [of "drop ?c ?s" m ty] fm Some have lo: "lexeme_ok ty m"
        by simp
      then have "ty \<noteq> T_EOF" by (auto simp: lexeme_ok_def)
      moreover have "located ?s (toToken (advance tk m) ty m)"
        using al m pre by (cases m) (simp_all add: located_def toToken_def)
      ultimately show ?thesis
        using step fm Some ok' lo by (simp add: toToken_def)
    qed
  qed
qed

lemma nth_call_ok:
  assumes "tk_ok tk"
  shows "call_ok (tstring tk) (nth_call tk n)"
  using assms
proof (induction n arbitrary: tk)
  case 0
  from getNextToken_ok [OF 0] show ?case by simp
next
  case (Suc n)
  note g = getNextToken_ok [OF Suc.prems]
  show ?case
  proof (cases "getNextToken tk")
    case (Inl e)
    with g show ?thesis by simp
  next
    case (Inr r)
    obtain t tk' where r: "r = (t, tk')" by (cases r)
    show ?thesis
    proof (cases "ttype t = T_EOF")
      case True
      with g Inr r have "\<not> cursor tk' \<le> length (tstring tk')" "tstring tk' = tstring tk"
        by auto
      with nth_call_past_end [of tk' n] Inr r show ?thesis
        by (simp add: EOF_TOKEN_def)
    next
      case False
      with g Inr r have "tk_ok tk'" "tstring tk' = tstring tk" by simp_all
      with Suc.IH [of tk'] Inr r show ?thesis by simp
    qed
  qed
qed

lemma tk_inv_initString: "tk_inv (initString s)"
  by (simp add: tk_inv_def initString_def)

lemma tk_ok_initString: "tk_ok (initString s)"
  using match_starts_0 [of s] by (simp add: tk_ok_def tk_inv_initString) (simp add: initString_def)

lemma calls_ok: "call_ok s (nth_call (initString s) n)"
  using nth_call_ok [OF tk_ok_initString, of s n] by (simp add: initString_def)

text \<open>
  Every offset at which the tokenizer looks for a match and finds a token is the start
  of a token that it delivers, at some call.
\<close>

lemma token_at_start:
  assumes "tk_inv tk" and "n \<in> set (match_starts (drop (cursor tk) (tstring tk)))"
    and "first_match lexRules (drop (cursor tk + n) (tstring tk)) = Some (w, Some ty)"
  shows "\<exists>k. nth_token tk k =
           Inr \<lparr>ttype = ty, tvalue = w,
                tloc = Some \<lparr>startOffset = cursor tk + n,
                             endOffset = cursor tk + n + length w,
                             startLine = line_of (tstring tk) (cursor tk + n),
                             endLine = line_of (tstring tk) (cursor tk + n + length w),
                             startColumn = column_of (tstring tk) (cursor tk + n),
                             endColumn = column_of (tstring tk) (cursor tk + n + length w)\<rparr>\<rparr>"
  using assms
proof (induction "drop (cursor tk) (tstring tk)" arbitrary: tk n rule: match_starts.induct)
  case (1 tk n)
  let ?s = "tstring tk" and ?c = "cursor tk"
  from "1.prems"(1) have le: "?c \<le> length ?s" by (simp add: tk_inv_def)
  note step = getNextToken_step [OF le]
  show ?case
  proof (cases "n = 0")
    case True
    with "1.prems"(3) have fm: "first_match lexRules (drop ?c ?s) = Some (w, Some ty)" by simp
    from first_match_lexRules [OF fm] have pre: "take (length w) (drop ?c ?s) = w" by simp
    note al = advance_locations [OF "1.prems"(1) pre]
    from step fm al True have "nth_token tk 0 =
           Inr \<lparr>ttype = ty, tvalue = w,
                tloc = Some \<lparr>startOffset = cursor tk + n,
                             endOffset = cursor tk + n + length w,
                             startLine = line_of (tstring tk) (cursor tk + n),
                             endLine = line_of (tstring tk) (cursor tk + n + length w),
                             startColumn = column_of (tstring tk) (cursor tk + n),
                             endColumn = column_of (tstring tk) (cursor tk + n + length w)\<rparr>\<rparr>"
      by (simp add: toToken_def)
    then show ?thesis ..
  next
    case False
    show ?thesis
    proof (cases "first_match lexRules (drop ?c ?s)")
      case None
      with "1.prems"(2) False show ?thesis by (simp add: match_starts_None)
    next
      case (Some mh)
      obtain m h where mh: "mh = (m, h)" by (cases mh)
      with Some have fm: "first_match lexRules (drop ?c ?s) = Some (m, h)" by simp
      from first_match_lexRules [OF fm] have pre: "take (length m) (drop ?c ?s) = m" by simp
      note al = advance_locations [OF "1.prems"(1) pre]
      let ?tk = "advance tk m"
      from "1.prems"(2) False match_starts_Some [OF fm]
      obtain n' where n': "n' \<in> set (match_starts (drop (length m) (drop ?c ?s)))"
        and n: "n = length m + n'" by auto
      have d: "drop (length m) (drop ?c ?s) = drop (cursor ?tk) (tstring ?tk)"
        by (simp add: add.commute)
      from n' d have n'': "n' \<in> set (match_starts (drop (cursor ?tk) (tstring ?tk)))" by simp
      from "1.prems"(3) n
      have fm': "first_match lexRules (drop (cursor ?tk + n') (tstring ?tk)) = Some (w, Some ty)"
        by (simp add: add.assoc)
      from "1.hyps" [OF fm [symmetric, THEN sym] refl d al(1) n'' fm']
      obtain k where k: "nth_token ?tk k =
           Inr \<lparr>ttype = ty, tvalue = w,
                tloc = Some \<lparr>startOffset = cursor tk + n,
                             endOffset = cursor tk + n + length w,
                             startLine = line_of (tstring tk) (cursor tk + n),
                             endLine = line_of (tstring tk) (cursor tk + n + length w),
                             startColumn = column_of (tstring tk) (cursor tk + n),
                             endColumn = column_of (tstring tk) (cursor tk + n + length w)\<rparr>\<rparr>"
        by (auto simp: n add.assoc)
      show ?thesis
      proof (cases h)
        case None
        with step fm have g: "getNextToken tk = getNextToken ?tk" by simp
        have "nth_token tk k = nth_token ?tk k" by (cases k) (simp_all add: g)
        with k show ?thesis by metis
      next
        case (Some ty')
        with step fm have "getNextToken tk = Inr (toToken ?tk ty' m, ?tk)" by simp
        then have "nth_token tk (Suc k) = nth_token ?tk k" by simp
        with k show ?thesis by metis
      qed
    qed
  qed
qed

subsection \<open>Identifiers\<close>

lemma is_word_not_special:
  "is_word c \<Longrightarrow> c \<noteq> newline \<and> \<not> is_space c \<and> c \<noteq> CHR ''/''"
  by (auto simp: is_word_def is_space_def newline_def Let_def)

lemma starts_with_append:
  assumes sw: "starts_with p (w @ r)" and p: "list_all is_word p"
    and r: "r = [] \<or> \<not> is_word (hd r)"
  shows "starts_with p w"
proof (cases "length p \<le> length w")
  case True
  with sw show ?thesis by (simp add: starts_with_def)
next
  case False
  from sw have eq: "take (length p) w @ take (length p - length w) r = p"
    by (simp add: starts_with_def)
  from False have tw: "take (length p) w = w" by simp
  show ?thesis
  proof (cases r)
    case Nil
    with eq tw False show ?thesis by auto
  next
    case (Cons c cs)
    with r have nw: "\<not> is_word c" by simp
    from False obtain k where k: "length p - length w = Suc k"
      by (cases "length p - length w") auto
    from eq tw Cons k have "p = w @ c # take k cs" by simp
    with p nw show ?thesis by simp
  qed
qed

lemma takeWhile_word_run:
  assumes "list_all is_word w" and "r = [] \<or> \<not> is_word (hd r)"
  shows "takeWhile is_word (w @ r) = w"
proof -
  from assms(2) have "takeWhile is_word r = []" by (cases r) auto
  with assms(1) show ?thesis by (simp add: takeWhile_append list_all_iff)
qed

lemma first_match_word_run:
  assumes w: "w \<noteq> []" "list_all is_word w"
    and kw: "\<not> starts_with ''CHIP'' w" "\<not> starts_with ''IN'' w"
      "\<not> starts_with ''OUT'' w" "\<not> starts_with ''PARTS'' w"
    and r: "r = [] \<or> \<not> is_word (hd r)"
  shows "first_match lexRules (w @ r) = Some (w, Some T_ID)"
proof -
  from w obtain c cs where wc: "w = c # cs" and c: "is_word c" by (cases w) auto
  note ns = is_word_not_special [OF c]
  have lc: "match_line_comment (w @ r) = None"
    using ns by (simp add: match_line_comment_def starts_with_def wc)
  have bc: "match_block_comment (w @ r) = None"
    using ns by (simp add: match_block_comment_def starts_with_def wc)
  have sp: "match_spaces (w @ r) = None"
    using ns by (simp add: match_spaces_def wc)
  have k: "\<not> starts_with p (w @ r)" if "list_all is_word p" "\<not> starts_with p w" for p
    using that starts_with_append [OF _ _ r] by blast
  have kws: "match_lit ''CHIP'' (w @ r) = None" "match_lit ''IN'' (w @ r) = None"
    "match_lit ''OUT'' (w @ r) = None" "match_lit ''PARTS'' (w @ r) = None"
    using kw by (simp_all add: match_lit_None k is_word_def)
  have wd: "match_words (w @ r) = Some w"
    using takeWhile_word_run [OF w(2) r] w(1) by (simp add: match_words_def)
  show ?thesis
    by (simp add: lexRules_def lc bc sp kws wd)
qed

section \<open>The shape of the stack and of the AST\<close>

subsection \<open>Paths in the table\<close>

text \<open>
  The transitions of the automaton that the table encodes: \<open>(s, x, t)\<close> when the state
  \<open>s\<close> goes to the state \<open>t\<close> on the symbol \<open>x\<close>, by a shift or by a goto.
  \<open>back_paths k t\<close> lists the paths of \<open>k\<close> transitions that end in \<open>t\<close>: their symbols in
  order, and the state they start from.
\<close>

definition edges :: "(nat \<times> int \<times> nat) list" where
  "edges =
     concat (map (\<lambda>(s, row).
       concat (map (\<lambda>(x, e). case e of Shift t \<Rightarrow> [(s, x, t)] | Goto t \<Rightarrow> [(s, x, t)] | _ \<Rightarrow> [])
                row))
       (enumerate 0 table))"

fun back_paths :: "nat \<Rightarrow> nat \<Rightarrow> (int list \<times> nat) list" where
  "back_paths 0 t = [([], t)]"
| "back_paths (Suc k) t =
     concat (map (\<lambda>(s, x, t').
       if t' = t then map (\<lambda>(syms, s0). (syms @ [x], s0)) (back_paths k s) else []) edges)"

fun path_ok :: "stack \<Rightarrow> bool" where
  "path_ok [] = True"
| "path_ok ((e, s) # st) = ((top_state st, symbol e, s) \<in> set edges \<and> path_ok st)"

text \<open>The right-hand sides of the productions, as the table has them.\<close>

definition rhs_syms :: "nat \<Rightarrow> int list" where
  "rhs_syms p =
     [[0], [12, 7, 17, 1, 18], [2, 2, 2], [3], [4], [5], [13, 6, 19], [14, 6, 19],
      [15, 20, 8], [7], [6, 21, 7], [16], [12], [13], [14], [15], [9], [8, 9],
      [16, 22, 10, 23, 19], [11], [10, 21, 11], [16, 24, 16]] ! p"

definition has_goto :: "nat \<Rightarrow> int \<Rightarrow> bool" where
  "has_goto s x =
     (case table_row s of
        None \<Rightarrow> False
      | Some row \<Rightarrow> (case map_of row x of Some (Goto m) \<Rightarrow> True | _ \<Rightarrow> False))"

definition reduce_states :: "(nat \<times> nat) list" where
  \<comment> \<open>the states that reduce, each with its production\<close>
  "reduce_states =
     remdups (concat (map (\<lambda>(s, row).
       concat (map (\<lambda>(x, e). case e of Reduce p \<Rightarrow> [(s, p)] | _ \<Rightarrow> []) row))
       (enumerate 0 table)))"

lemma reduce_states_paths:
  "list_all (\<lambda>(s, p).
      case productions ! p of
        (lhs, n, act) \<Rightarrow>
          list_all (\<lambda>(syms, s0). syms = rhs_syms p \<and> has_goto s0 lhs) (back_paths n s)
          \<and> list_all (\<lambda>j. list_all (\<lambda>(syms, s0). s0 \<noteq> 0) (back_paths j s)) [0..<n])
     reduce_states"
  by code_simp

lemma edges_into:
  "list_all (\<lambda>(s, x, t). t \<noteq> 0 \<and> s < 43 \<and> t < 43 \<and> (t = 30 \<longrightarrow> x = 0 \<and> s = 0)) edges"
  by code_simp

lemma accept_state:
  "list_all (\<lambda>(s, row). list_all (\<lambda>(x, e). e = Accept \<longrightarrow> s = 30) row) (enumerate 0 table)"
  by code_simp

subsection \<open>Typed values\<close>

text \<open>
  What the semantic value of a stack entry looks like, by the symbol of the entry: a
  Name is a non-empty string of word characters, an identifier is the text of an ID
  token, and the lists and objects are built from these.
\<close>

fun is_name :: "jsval \<Rightarrow> bool" where
  "is_name (Str n) = (n \<noteq> [] \<and> list_all is_word n)"
| "is_name _ = False"

fun is_ident :: "jsval \<Rightarrow> bool" where
  "is_ident (Str n) = lexeme_ok T_ID n"
| "is_ident _ = False"

fun is_names :: "jsval \<Rightarrow> bool" where
  "is_names (Array xs) = list_all is_name xs"
| "is_names _ = False"

fun is_arg :: "jsval \<Rightarrow> bool" where
  "is_arg (Argument n v) = (is_ident n \<and> is_ident v)"
| "is_arg _ = False"

fun is_args :: "jsval \<Rightarrow> bool" where
  "is_args (Array xs) = list_all is_arg xs"
| "is_args _ = False"

fun is_call :: "jsval \<Rightarrow> bool" where
  "is_call (ChipCall n a) = (is_ident n \<and> is_args a)"
| "is_call _ = False"

fun is_calls :: "jsval \<Rightarrow> bool" where
  "is_calls (Array xs) = list_all is_call xs"
| "is_calls _ = False"

fun is_chip :: "jsval \<Rightarrow> bool" where
  "is_chip (Chip n i ou p) = (is_name n \<and> i = Ref RInputs \<and> ou = Ref ROutputs \<and> p = Ref RParts)"
| "is_chip _ = False"

definition val_ok :: "int \<Rightarrow> jsval \<Rightarrow> bool" where
  "val_ok x v =
     (if x = 0 then is_chip v
      else if x = 6 then is_names v
      else if x = 7 then is_name v
      else if x = 8 then is_calls v
      else if x = 9 then is_call v
      else if x = 10 then is_args v
      else if x = 11 then is_arg v
      else if x = 12 \<or> x = 13 \<or> x = 14 \<or> x = 15 then is_name v
      else if x = 16 then is_ident v
      else True)"

definition entry_ok :: "stack_entry \<Rightarrow> bool" where
  "entry_ok e = val_ok (symbol e) (entry_value e)"

definition extends :: "'a list \<Rightarrow> 'a list \<Rightarrow> ('a \<Rightarrow> bool) \<Rightarrow> bool" where
  \<comment> \<open>\<open>new\<close> is \<open>old\<close> followed by elements that satisfy \<open>P\<close>\<close>
  "extends old new P = (take (length old) new = old \<and> list_all P (drop (length old) new))"

definition globals_ok :: "globals \<Rightarrow> globals \<Rightarrow> bool" where
  "globals_ok g0 g =
     (extends (inputs g0) (inputs g) is_name \<and> extends (outputs g0) (outputs g) is_name
      \<and> extends (parts g0) (parts g) is_call)"

lemma extends_refl [simp]: "extends xs xs P"
  by (simp add: extends_def)

lemma extends_append:
  assumes "extends old new P" and "list_all P xs"
  shows "extends old (new @ xs) P"
proof -
  from assms(1) have t: "take (length old) new = old" by (simp add: extends_def)
  then have "length old \<le> length new"
    by (metis length_take min.cobounded1)
  with assms t show ?thesis by (simp add: extends_def)
qed

lemma is_name_ident: "is_ident v \<Longrightarrow> is_name v"
  by (cases v) (simp_all add: lexeme_ok_def)

lemma lexeme_ok_ID: "lexeme_ok T_ID n \<Longrightarrow> n \<noteq> [] \<and> list_all is_word n"
  by (simp add: lexeme_ok_def)

lemma shapes:
  "is_name v \<longleftrightarrow> (\<exists>n. v = Str n \<and> n \<noteq> [] \<and> list_all is_word n)"
  "is_ident v \<longleftrightarrow> (\<exists>n. v = Str n \<and> lexeme_ok T_ID n)"
  "is_names v \<longleftrightarrow> (\<exists>xs. v = Array xs \<and> list_all is_name xs)"
  "is_arg v \<longleftrightarrow> (\<exists>n a. v = Argument n a \<and> is_ident n \<and> is_ident a)"
  "is_args v \<longleftrightarrow> (\<exists>xs. v = Array xs \<and> list_all is_arg xs)"
  "is_call v \<longleftrightarrow> (\<exists>n a. v = ChipCall n a \<and> is_ident n \<and> is_args a)"
  "is_calls v \<longleftrightarrow> (\<exists>xs. v = Array xs \<and> list_all is_call xs)"
  by (cases v; simp)+

lemmas acts = act_copy_def act_chip_def act_inputs_def act_outputs_def act_parts_def
  act_single_def act_push3_def act_push2_def act_chipcall_def act_argument_def
  push_spread_def push_result_def spread_def get_array_def set_array_def Let_def

lemma run_action_ok:
  assumes p: "0 < p" "p < 22" and pr: "productions ! p = (lhs, n, act)"
    and sy: "map symbol es = rhs_syms p" and ok: "list_all entry_ok es"
    and g: "globals_ok g0 g"
  shows "case run_action lhs act es g of
           (thrown, g', e) \<Rightarrow>
             thrown = None \<and> symbol e = lhs \<and> entry_ok e \<and> globals_ok g0 g'"
proof -
  from p consider "p = 1" | "p = 2" | "p = 3" | "p = 4" | "p = 5" | "p = 6" | "p = 7"
    | "p = 8" | "p = 9" | "p = 10" | "p = 11" | "p = 12" | "p = 13" | "p = 14" | "p = 15"
    | "p = 16" | "p = 17" | "p = 18" | "p = 19" | "p = 20" | "p = 21"
    by atomize_elim arith
  then show ?thesis
  proof cases
    case 1
    with pr sy ok g show ?thesis
      by (auto simp: productions_def rhs_syms_def map_eq_Cons_conv run_action_def acts
          entry_ok_def val_ok_def entry_value_def shapes globals_ok_def extends_append
          split: option.splits)
  next
    case 2
    with pr sy ok g show ?thesis
      by (auto simp: productions_def rhs_syms_def map_eq_Cons_conv run_action_def acts
          entry_ok_def val_ok_def entry_value_def shapes globals_ok_def extends_append
          split: option.splits)
  next
    case 3
    with pr sy ok g show ?thesis
      by (auto simp: productions_def rhs_syms_def map_eq_Cons_conv run_action_def acts
          entry_ok_def val_ok_def entry_value_def shapes globals_ok_def extends_append
          split: option.splits)
  next
    case 4
    with pr sy ok g show ?thesis
      by (auto simp: productions_def rhs_syms_def map_eq_Cons_conv run_action_def acts
          entry_ok_def val_ok_def entry_value_def shapes globals_ok_def extends_append
          split: option.splits)
  next
    case 5
    with pr sy ok g show ?thesis
      by (auto simp: productions_def rhs_syms_def map_eq_Cons_conv run_action_def acts
          entry_ok_def val_ok_def entry_value_def shapes globals_ok_def extends_append
          split: option.splits)
  next
    case 6
    with pr sy ok g show ?thesis
      by (auto simp: productions_def rhs_syms_def map_eq_Cons_conv run_action_def acts
          entry_ok_def val_ok_def entry_value_def shapes globals_ok_def extends_append
          split: option.splits)
  next
    case 7
    with pr sy ok g show ?thesis
      by (auto simp: productions_def rhs_syms_def map_eq_Cons_conv run_action_def acts
          entry_ok_def val_ok_def entry_value_def shapes globals_ok_def extends_append
          split: option.splits)
  next
    case 8
    with pr sy ok g show ?thesis
      by (auto simp: productions_def rhs_syms_def map_eq_Cons_conv run_action_def acts
          entry_ok_def val_ok_def entry_value_def shapes globals_ok_def extends_append
          split: option.splits)
  next
    case 9
    with pr sy ok g show ?thesis
      by (auto simp: productions_def rhs_syms_def map_eq_Cons_conv run_action_def acts
          entry_ok_def val_ok_def entry_value_def shapes globals_ok_def extends_append
          split: option.splits)
  next
    case 10
    with pr sy ok g show ?thesis
      by (auto simp: productions_def rhs_syms_def map_eq_Cons_conv run_action_def acts
          entry_ok_def val_ok_def entry_value_def shapes globals_ok_def extends_append
          split: option.splits)
  next
    case 11
    with pr sy ok g show ?thesis
      by (auto simp: productions_def rhs_syms_def map_eq_Cons_conv run_action_def acts
          entry_ok_def val_ok_def entry_value_def shapes globals_ok_def extends_append
          split: option.splits dest: lexeme_ok_ID)
  next
    case 12
    with pr sy ok g show ?thesis
      by (auto simp: productions_def rhs_syms_def map_eq_Cons_conv run_action_def acts
          entry_ok_def val_ok_def entry_value_def shapes globals_ok_def extends_append
          split: option.splits)
  next
    case 13
    with pr sy ok g show ?thesis
      by (auto simp: productions_def rhs_syms_def map_eq_Cons_conv run_action_def acts
          entry_ok_def val_ok_def entry_value_def shapes globals_ok_def extends_append
          split: option.splits)
  next
    case 14
    with pr sy ok g show ?thesis
      by (auto simp: productions_def rhs_syms_def map_eq_Cons_conv run_action_def acts
          entry_ok_def val_ok_def entry_value_def shapes globals_ok_def extends_append
          split: option.splits)
  next
    case 15
    with pr sy ok g show ?thesis
      by (auto simp: productions_def rhs_syms_def map_eq_Cons_conv run_action_def acts
          entry_ok_def val_ok_def entry_value_def shapes globals_ok_def extends_append
          split: option.splits)
  next
    case 16
    with pr sy ok g show ?thesis
      by (auto simp: productions_def rhs_syms_def map_eq_Cons_conv run_action_def acts
          entry_ok_def val_ok_def entry_value_def shapes globals_ok_def extends_append
          split: option.splits)
  next
    case 17
    with pr sy ok g show ?thesis
      by (auto simp: productions_def rhs_syms_def map_eq_Cons_conv run_action_def acts
          entry_ok_def val_ok_def entry_value_def shapes globals_ok_def extends_append
          split: option.splits)
  next
    case 18
    with pr sy ok g show ?thesis
      by (auto simp: productions_def rhs_syms_def map_eq_Cons_conv run_action_def acts
          entry_ok_def val_ok_def entry_value_def shapes globals_ok_def extends_append
          split: option.splits)
  next
    case 19
    with pr sy ok g show ?thesis
      by (auto simp: productions_def rhs_syms_def map_eq_Cons_conv run_action_def acts
          entry_ok_def val_ok_def entry_value_def shapes globals_ok_def extends_append
          split: option.splits)
  next
    case 20
    with pr sy ok g show ?thesis
      by (auto simp: productions_def rhs_syms_def map_eq_Cons_conv run_action_def acts
          entry_ok_def val_ok_def entry_value_def shapes globals_ok_def extends_append
          split: option.splits)
  next
    case 21
    with pr sy ok g show ?thesis
      by (auto simp: productions_def rhs_syms_def map_eq_Cons_conv run_action_def acts
          entry_ok_def val_ok_def entry_value_def shapes globals_ok_def extends_append
          split: option.splits)
  qed
qed

subsection \<open>The invariant of the loop\<close>

definition lx_inv :: "globals \<Rightarrow> lx_config \<Rightarrow> bool" where
  "lx_inv g0 a =
     (case a of (st, toks, bad, g) \<Rightarrow>
        path_ok st \<and> list_all (\<lambda>(e, s). entry_ok e) st
        \<and> list_all (\<lambda>(ty, v). lexeme_ok ty v) toks \<and> globals_ok g0 g)"

lemma in_concat_map: "y \<in> set xs \<Longrightarrow> z \<in> set (f y) \<Longrightarrow> z \<in> set (concat (map f xs))"
  by auto

lemma edge_of_entry:
  assumes "table_row s = Some row" and "map_of row x = Some e"
    and "e = Shift t \<or> e = Goto t"
  shows "(s, x, t) \<in> set edges"
proof -
  from table_lookup [OF assms(1,2)] have s: "s < length table" "row = table ! s"
    and mem: "(x, e) \<in> set row" by (simp_all add: length_table)
  from s have "(s, row) \<in> set (enumerate 0 table)" by (simp add: in_set_enumerate_eq)
  then have r: "(s, row) \<in> set (enumerate 0 table)" .
  define F where "F = (\<lambda>s. \<lambda>(x, e).
      case e of Shift t \<Rightarrow> [(s, x, t)] | Goto t \<Rightarrow> [(s, x, t)] | _ \<Rightarrow> ([] :: (nat \<times> int \<times> nat) list))"
  have ed: "edges = concat (map (\<lambda>(s, row). concat (map (F s) row)) (enumerate 0 table))"
    by (simp add: edges_def F_def)
  from assms(3) have 1: "(s, x, t) \<in> set (F s (x, e))" by (auto simp: F_def)
  have "(s, x, t) \<in> set (concat (map (F s) row))"
    by (rule in_concat_map [where f = "F s", OF mem 1])
  then have 2: "(s, x, t) \<in> set ((\<lambda>(s, row). concat (map (F s) row)) (s, row))" by simp
  show ?thesis
    unfolding ed
    by (rule in_concat_map [where f = "\<lambda>(s, row). concat (map (F s) row)", OF r 2])
qed

lemma reduce_state_of_entry:
  assumes "table_row s = Some row" and "map_of row x = Some (Reduce p)"
  shows "(s, p) \<in> set reduce_states"
proof -
  from table_lookup [OF assms] have s: "s < length table" "row = table ! s"
    and mem: "(x, Reduce p) \<in> set row" by (simp_all add: length_table)
  from s have "(s, row) \<in> set (enumerate 0 table)" by (simp add: in_set_enumerate_eq)
  then have r: "(s, row) \<in> set (enumerate 0 table)" .
  define F where "F = (\<lambda>s. \<lambda>(x :: int, e).
      case e of Reduce p \<Rightarrow> [(s, p)] | _ \<Rightarrow> ([] :: (nat \<times> nat) list))"
  have ed: "set reduce_states
      = set (concat (map (\<lambda>(s, row). concat (map (F s) row)) (enumerate 0 table)))"
    by (simp add: reduce_states_def F_def)
  have 1: "(s, p) \<in> set (F s (x, Reduce p))" by (simp add: F_def)
  have "(s, p) \<in> set (concat (map (F s) row))"
    by (rule in_concat_map [where f = "F s", OF mem 1])
  then have 2: "(s, p) \<in> set ((\<lambda>(s, row). concat (map (F s) row)) (s, row))" by simp
  show ?thesis
    unfolding ed
    by (rule in_concat_map [where f = "\<lambda>(s, row). concat (map (F s) row)", OF r 2])
qed

lemma pop_entries_path:
  "path_ok st \<Longrightarrow> pop_entries k st = Some (es, st')
     \<Longrightarrow> (map symbol es, top_state st') \<in> set (back_paths k (top_state st)) \<and> path_ok st'"
proof (induction k st arbitrary: es st' rule: pop_entries.induct)
  case (1 st)
  then show ?case by simp
next
  case (2 n)
  then show ?case by simp
next
  case (3 n e s st)
  from "3.prems"(2) obtain es0 where p: "pop_entries n st = Some (es0, st')"
    and es: "es = es0 @ [e]"
    by (auto split: option.splits)
  from "3.prems"(1) have edge: "(top_state st, symbol e, s) \<in> set edges" and ok: "path_ok st"
    by simp_all
  from "3.IH" [OF ok p]
  have ih: "(map symbol es0, top_state st') \<in> set (back_paths n (top_state st))"
    and ok': "path_ok st'" by simp_all
  from ih have "(map symbol es0 @ [symbol e], top_state st')
      \<in> set (map (\<lambda>(syms, s0). (syms @ [symbol e], s0)) (back_paths n (top_state st)))"
    by (simp add: image_iff) (rule bexI [of _ "(map symbol es0, top_state st')"], simp_all)
  then have "(map symbol es0 @ [symbol e], top_state st')
      \<in> set ((\<lambda>(s0, x, t'). if t' = s
                   then map (\<lambda>(syms, s00). (syms @ [x], s00)) (back_paths n s0) else [])
                (top_state st, symbol e, s))"
    by simp
  from in_concat_map [where f = "\<lambda>(s0, x, t'). if t' = s
                   then map (\<lambda>(syms, s00). (syms @ [x], s00)) (back_paths n s0) else []",
      OF edge this]
  have "(map symbol es0 @ [symbol e], top_state st') \<in> set (back_paths (Suc n) s)"
    by simp
  with ok' es show ?case by (simp add: top_state_def)
qed

lemma pop_entries_ok:
  "list_all (\<lambda>(e, s). entry_ok e) st \<Longrightarrow> pop_entries k st = Some (es, st')
     \<Longrightarrow> list_all entry_ok es \<and> list_all (\<lambda>(e, s). entry_ok e) st'"
  by (induction k st arbitrary: es st' rule: pop_entries.induct)
    (auto split: option.splits)

lemma pop_entries_all: "\<exists>es. pop_entries (length st) st = Some (es, [])"
  by (induction st) auto

lemma pop_entries_None: "pop_entries k st = None \<Longrightarrow> length st < k"
  by (induction k st rule: pop_entries.induct) (auto split: option.splits)

lemma reduce_stack_ok:
  assumes row: "table_row (top_state st) = Some row"
    and en: "map_of row x = Some (Reduce p)"
    and path: "path_ok st" and vals: "list_all (\<lambda>(e, s). entry_ok e) st"
    and g: "globals_ok g0 g"
  shows "\<exists>st' g'. reduce_stack p st g = Inr (st', g') \<and> path_ok st'
           \<and> list_all (\<lambda>(e, s). entry_ok e) st' \<and> globals_ok g0 g'"
proof -
  from table_entry_cases [OF row en] have p: "0 < p" "p < 22" by simp_all
  obtain lhs n act where pr: "productions ! p = (lhs, n, act)" by (cases "productions ! p")
  note rs = reduce_states_paths [THEN list_all_iff [THEN iffD1], THEN bspec,
      OF reduce_state_of_entry [OF row en]]
  from rs pr
  have paths: "list_all (\<lambda>(syms, s0). syms = rhs_syms p \<and> has_goto s0 lhs)
                 (back_paths n (top_state st))"
    and short: "list_all (\<lambda>j. list_all (\<lambda>(syms, s0). s0 \<noteq> 0) (back_paths j (top_state st))) [0..<n]"
    by simp_all
  show ?thesis
  proof (cases "pop_entries n st")
    case None
    from pop_entries_None [OF None] have lt: "length st < n" .
    from pop_entries_all [of st] obtain es where "pop_entries (length st) st = Some (es, [])" ..
    from pop_entries_path [OF path this]
    have "(map symbol es, 0) \<in> set (back_paths (length st) (top_state st))"
      by (simp add: top_state_def)
    moreover from short lt
    have "list_all (\<lambda>(syms, s0). s0 \<noteq> 0) (back_paths (length st) (top_state st))"
      by (simp add: list_all_iff)
    ultimately have False by (simp add: list_all_iff) blast
    then show ?thesis ..
  next
    case (Some r)
    obtain es st' where r: "r = (es, st')" by (cases r)
    with Some have pop: "pop_entries n st = Some (es, st')" by simp
    from pop_entries_path [OF path pop]
    have mem: "(map symbol es, top_state st') \<in> set (back_paths n (top_state st))"
      and path': "path_ok st'" by simp_all
    from paths [THEN list_all_iff [THEN iffD1], THEN bspec, OF mem]
    have sy: "map symbol es = rhs_syms p" and gt: "has_goto (top_state st') lhs"
      by simp_all
    from pop_entries_ok [OF vals pop] have ok: "list_all entry_ok es"
      and vals': "list_all (\<lambda>(e, s). entry_ok e) st'" by simp_all
    obtain thr g' e where ra: "run_action lhs act es g = (thr, g', e)"
      by (cases "run_action lhs act es g")
    from run_action_ok [OF p pr sy ok g] ra
    have res: "thr = None" "symbol e = lhs" "entry_ok e" "globals_ok g0 g'" by simp_all
    from gt obtain row' m where row': "table_row (top_state st') = Some row'"
      and gm: "map_of row' lhs = Some (Goto m)"
      by (auto simp: has_goto_def split: option.splits entry.splits)
    from edge_of_entry [OF row' gm] res(2)
    have "(top_state st', symbol e, m) \<in> set edges" by simp
    with p pr pop ra res row' gm path' vals' show ?thesis
      by (simp add: reduce_stack_def length_productions)
  qed
qed

fun lx_post :: "globals \<Rightarrow> lx_outcome \<Rightarrow> bool" where
  "lx_post g0 (Inl k, g) = (k = UnexpectedToken \<or> k = UnexpectedEnd)"
| "lx_post g0 (Inr v, g) = (is_chip v \<and> globals_ok g0 g)"

lemma lexeme_val_ok:
  "lexeme_ok ty v \<Longrightarrow> val_ok (tokens ty) (Str v)"
  by (cases ty) (auto simp: lexeme_ok_def val_ok_def tokens_def is_word_def)

lemma lx_step_inv:
  assumes inv: "lx_inv g0 a"
  shows "case lx_step a of Inl a' \<Rightarrow> lx_inv g0 a' | Inr r \<Rightarrow> lx_post g0 r"
proof -
  obtain st toks bad g where a: "a = (st, toks, bad, g)" by (cases a)
  from inv a have path: "path_ok st" and vals: "list_all (\<lambda>(e, s). entry_ok e) st"
    and tk: "list_all (\<lambda>(ty, v). lexeme_ok ty v) toks" and g: "globals_ok g0 g"
    by (simp_all add: lx_inv_def)
  have st43: "top_state st < 43"
  proof (cases st)
    case Nil
    then show ?thesis by (simp add: top_state_def)
  next
    case (Cons es st')
    obtain e s where "es = (e, s)" by (cases es)
    with Cons path edges_into show ?thesis
      by (auto simp: list_all_iff top_state_def)
  qed
  then obtain row where row: "table_row (top_state st) = Some row"
    by (simp add: table_row_def length_table)
  show ?thesis
  proof (cases "map_of row (lx_column toks)")
    case None
    with row show ?thesis by (simp add: a lx_step_def lx_unexpected_def)
  next
    case (Some en)
    note tc = table_entry_cases [OF row Some] and cr = lx_column_range [of toks]
    show ?thesis
    proof (cases en)
      case (Shift n)
      with tc have "lx_column toks < 25" by simp
      then obtain ty v rest where toks: "toks = (ty, v) # rest"
        by (cases toks) (auto simp: lx_column_def tokens_def)
      from edge_of_entry [OF row Some, of n] Shift
      have edge: "(top_state st, lx_column toks, n) \<in> set edges" by simp
      from tk toks lexeme_val_ok [of ty v]
      have "val_ok (lx_column toks) (Str v)" by (simp add: lx_column_def)
      with row Some Shift toks edge path vals tk g show ?thesis
        by (simp add: a lx_step_def lx_inv_def entry_ok_def entry_value_def)
    next
      case (Reduce p)
      from reduce_stack_ok [OF row Some [unfolded Reduce] path vals g]
      obtain st' g' where "reduce_stack p st g = Inr (st', g')" "path_ok st'"
        "list_all (\<lambda>(e, s). entry_ok e) st'" "globals_ok g0 g'" by blast
      with row Some Reduce tk show ?thesis
        by (simp add: a lx_step_def lx_inv_def)
    next
      case Accept
      from table_lookup [OF row Some] have s: "top_state st < length table"
        "row = table ! top_state st" and mem: "(lx_column toks, en) \<in> set row"
        by (simp_all add: length_table)
      from s have "(top_state st, row) \<in> set (enumerate 0 table)"
        by (simp add: in_set_enumerate_eq)
      with accept_state mem Accept have s30: "top_state st = 30"
        by (fastforce simp: list_all_iff)
      show ?thesis
      proof (cases st rule: remdups_adj.cases)
        case 1
        with s30 show ?thesis by (simp add: top_state_def)
      next
        case (2 es)
        obtain e s where es: "es = (e, s)" by (cases es)
        with 2 s30 path edges_into have "symbol e = 0"
          by (auto simp: list_all_iff top_state_def)
        with 2 es vals have "is_chip (entry_value e)"
          by (simp add: entry_ok_def val_ok_def)
        with row Some Accept 2 es g show ?thesis
          by (auto simp: a lx_step_def entry_value_def split: option.splits)
      next
        case (3 es es' st')
        with row Some Accept show ?thesis
          by (auto simp: a lx_step_def lx_unexpected_def split: prod.splits)
      qed
    next
      case (Goto n)
      with tc cr show ?thesis by simp
    qed
  qed
qed

lemma lx_loop_inv:
  "lx_inv g0 a \<Longrightarrow> \<exists>r. lx_loop a = Some r \<and> lx_post g0 r"
proof (induction a rule: wf_induct_rule [OF wf_lx_measure])
  case (1 a)
  note si = lx_step_inv [OF "1.prems"]
  show ?case
  proof (cases "lx_step a")
    case (Inl a')
    with si have "lx_inv g0 a'" by simp
    from "1.IH" [OF lx_step_decreases [OF Inl] this] Inl show ?thesis
      by (subst lx_loop.simps) simp
  next
    case (Inr r)
    with si show ?thesis by (subst lx_loop.simps) simp
  qed
qed

lemma lx_parse_post:
  "\<exists>r. lx_parse s g = Some r \<and> lx_post (canon g) r"
proof -
  obtain toks bad where lx: "lexemes s = (toks, bad)" by (cases "lexemes s")
  from lexemes_ok [OF lx] have "list_all (\<lambda>(ty, v). lexeme_ok ty v) toks"
    by (auto simp: list_all_iff)
  then have "lx_inv (canon g) ([], toks, bad, canon g)"
    by (simp add: lx_inv_def globals_ok_def)
  from lx_loop_inv [OF this] lx show ?thesis
    by (auto simp: lx_parse_def)
qed

subsection \<open>Locations in the parser\<close>

text \<open>
  A location record is right for the input when its lines and columns are the lines and
  columns of its two offsets. \<open>parse_run s g n\<close> is the state of \<open>parse\<close> after \<open>n\<close>
  iterations of its loop, or the outcome of the call if it has ended by then.
\<close>

definition loc_ok :: "string \<Rightarrow> loc \<Rightarrow> bool" where
  "loc_ok s l =
     (startOffset l \<le> length s \<and> endOffset l \<le> length s
      \<and> startLine l = line_of s (startOffset l)
      \<and> startColumn l = column_of s (startOffset l)
      \<and> endLine l = line_of s (endOffset l)
      \<and> endColumn l = column_of s (endOffset l))"

definition oloc_ok :: "string \<Rightarrow> loc option \<Rightarrow> bool" where
  "oloc_ok s l = (case l of None \<Rightarrow> True | Some l' \<Rightarrow> loc_ok s l')"

fun parse_run :: "string \<Rightarrow> globals \<Rightarrow> nat \<Rightarrow> config + outcome" where
  "parse_run s g 0 =
     (case getNextToken (initString s) of
        Inl e \<Rightarrow> Inr (Inl e, g)
      | Inr (token, tk) \<Rightarrow> Inl ([], token, tk, g))"
| "parse_run s g (Suc n) =
     (case parse_run s g n of Inl c \<Rightarrow> parse_step c | Inr r \<Rightarrow> Inr r)"

lemma parse_run_parse:
  "(case parse_run s g n of Inl c \<Rightarrow> parse s g = parse_loop c | Inr r \<Rightarrow> parse s g = Some r)"
proof (induction n)
  case 0
  show ?case by (simp add: parse_def split: sum.splits)
next
  case (Suc n)
  show ?case
  proof (cases "parse_run s g n")
    case (Inl c)
    with Suc have "parse s g = parse_loop c" by simp
    also have "\<dots> = (case parse_step c of Inl c' \<Rightarrow> parse_loop c' | Inr r \<Rightarrow> Some r)"
      by (subst parse_loop.simps) simp
    finally show ?thesis using Inl by (simp split: sum.splits)
  next
    case (Inr r)
    with Suc show ?thesis by simp
  qed
qed

lemma start_rel:
  "case getNextToken (initString s) of
     Inl e \<Rightarrow> True
   | Inr (t, tk) \<Rightarrow> \<exists>toks bad. conf_rel s ([], t, tk, g) ([], toks, bad, canon g)"
proof -
  obtain toks bad where lx: "lexemes s = (toks, bad)" by (cases "lexemes s")
  have c: "cursor (initString s) \<le> length (tstring (initString s))"
    by (simp add: initString_def)
  from getNextToken_lexemes [OF c] lx have d: "delivers (initString s) (toks, bad)"
    by (simp add: initString_def)
  show ?thesis
  proof (cases toks)
    case Nil
    show ?thesis
    proof (cases bad)
      case True
      with d Nil show ?thesis by auto
    next
      case False
      with d Nil obtain tk' where g: "getNextToken (initString s) = Inr (EOF_TOKEN, tk')"
        "tstring tk' = s" "cursor tk' = length s + 1"
        by (auto simp: initString_def)
      then have "conf_rel s ([], EOF_TOKEN, tk', g) ([], [], bad, canon g)"
        by (simp add: conf_rel_def tok_rel_def)
      with g show ?thesis by auto
    qed
  next
    case (Cons x rest)
    obtain ty v where x: "x = (ty, v)" by (cases x)
    from d Cons x obtain t tk' where g: "getNextToken (initString s) = Inr (t, tk')"
      "ttype t = ty" "tvalue t = v" "tloc t \<noteq> None" "tstring tk' = s"
      "cursor tk' \<le> length s" "lexemes (drop (cursor tk') s) = (rest, bad)"
      by (auto simp: initString_def)
    from lexemes_ok [OF lx, of ty v] Cons x have "ty \<noteq> T_EOF"
      by (auto simp: lexeme_ok_def)
    with g have "conf_rel s ([], t, tk', g) ([], (ty, v) # rest, bad, canon g)"
      by (simp add: conf_rel_def tok_rel_def)
    with g show ?thesis by auto
  qed
qed

lemma parse_run_ends_from:
  "conf_rel s c a \<Longrightarrow> parse_run s g n = Inl c \<Longrightarrow> \<exists>m r. parse_run s g m = Inr r"
proof (induction a arbitrary: c n rule: wf_induct_rule [OF wf_lx_measure])
  case (1 a)
  from step_sim [OF "1.prems"(1)] have sr: "step_rel s (parse_step c) (lx_step a)" .
  show ?case
  proof (cases "lx_step a")
    case (Inl a')
    with sr obtain c' where c': "parse_step c = Inl c'" and rel: "conf_rel s c' a'"
      by (cases "parse_step c") auto
    from c' "1.prems"(2) have "parse_run s g (Suc n) = Inl c'" by simp
    from "1.IH" [OF lx_step_decreases [OF Inl] rel this] show ?thesis .
  next
    case (Inr r')
    with sr obtain r where "parse_step c = Inr r"
      by (cases "parse_step c") auto
    with "1.prems"(2) have "parse_run s g (Suc n) = Inr r" by simp
    then show ?thesis by blast
  qed
qed

lemma parse_run_ends: "\<exists>m r. parse_run s g m = Inr r \<and> parse s g = Some r"
proof -
  have "\<exists>m r. parse_run s g m = Inr r"
  proof (cases "getNextToken (initString s)")
    case (Inl e)
    then have "parse_run s g 0 = Inr (Inl e, g)" by simp
    then show ?thesis by blast
  next
    case (Inr r)
    obtain t tk where r: "r = (t, tk)" by (cases r)
    from start_rel [of s g] Inr r obtain toks bad where
      "conf_rel s ([], t, tk, g) ([], toks, bad, canon g)" by auto
    moreover from Inr r have "parse_run s g 0 = Inl ([], t, tk, g)" by simp
    ultimately show ?thesis by (rule parse_run_ends_from)
  qed
  then obtain m r where m: "parse_run s g m = Inr r" by blast
  with parse_run_parse [of s g m] have "parse s g = Some r" by simp
  with m show ?thesis by blast
qed

text \<open>No call of \<open>parse\<close> throws a TypeError: the table and the actions fit together.\<close>

lemma parse_outcome:
  assumes "parse s g = Some (res, g')"
  shows "case res of
           Inl e \<Rightarrow> e = unexpectedEndOfInput
                    \<or> (\<exists>symbol line column. e = throwUnexpectedToken (initString s) symbol line column)
         | Inr v \<Rightarrow> is_chip v \<and> globals_ok g g'"
proof -
  from parse_lexemes [of s g] assms obtain r' where l: "lx_parse s g = Some r'"
    and o: "out_rel s (res, g') r'" by auto
  from lx_parse_post [of s g] l have post: "lx_post (canon g) r'" by simp
  obtain k ag where r': "r' = (k, ag)" by (cases r')
  show ?thesis
  proof (cases res)
    case (Inl e)
    with o r' obtain th where th: "k = Inl th" "err_rel s e th" by auto
    with post r' have "th = UnexpectedToken \<or> th = UnexpectedEnd" by simp
    with th Inl show ?thesis by auto
  next
    case (Inr v)
    with o r' have "k = Inr v" "ag = canon g'" by simp_all
    with post r' have "is_chip v" "globals_ok (canon g) (canon g')" by simp_all
    with Inr show ?thesis by (simp add: globals_ok_def)
  qed
qed

lemma throwUnexpectedToken_SyntaxError:
  "throwUnexpectedToken tk x line column \<noteq> TypeError"
  "TypeError \<noteq> throwUnexpectedToken tk x line column"
  by (simp_all add: throwUnexpectedToken_def Let_def)

lemma parse_no_TypeError: "parse s g = Some (Inl e, g') \<Longrightarrow> e \<noteq> TypeError"
  using parse_outcome [of s g "Inl e" g']
  by (auto simp: unexpectedEndOfInput_def throwUnexpectedToken_SyntaxError)
lemma yyloc_ok: "oloc_ok s a \<Longrightarrow> oloc_ok s b \<Longrightarrow> oloc_ok s (yyloc g a b)"
  by (auto simp: yyloc_def oloc_ok_def loc_ok_def split: option.splits)

lemma located_loc_ok: "located s t \<Longrightarrow> oloc_ok s (tloc t)"
  by (auto simp: located_def oloc_ok_def loc_ok_def split: option.splits)

lemma push_spread_loc:
  "push_spread r v g = (thr, g')
     \<Longrightarrow> yyresultloc g' = yyresultloc g \<and> (thr = None \<or> thr = Some TypeError)"
  by (cases r; cases v) (auto simp: push_spread_def spread_def set_array_def)

lemma push_result_loc:
  "push_result a x g = (thr, g')
     \<Longrightarrow> yyresultloc g' = yyresultloc g \<and> (thr = None \<or> thr = Some TypeError)"
proof (cases a)
  case (Ref r)
  then show "push_result a x g = (thr, g')
     \<Longrightarrow> yyresultloc g' = yyresultloc g \<and> (thr = None \<or> thr = Some TypeError)"
    by (cases r) (auto simp: push_result_def set_array_def)
qed (auto simp: push_result_def)

lemma action_loc:
  assumes "(lhs, n, Some a) \<in> set productions" and "length ls = n"
    and "list_all (oloc_ok s) ls" and "a vs ls g = (thr, g')"
  shows "oloc_ok s (yyresultloc g') \<and> (thr = None \<or> thr = Some TypeError)"
proof -
  from assms(2,3) have nth: "oloc_ok s (ls ! i)" if "i < n" for i
    using that by (simp add: list_all_length)
  have y: "oloc_ok s (yyloc g (ls ! i) (ls ! j))" if "i < n" "j < n" for i j
    using that nth yyloc_ok by blast
  from assms(1) consider "a = act_copy" "n = 1" | "a = act_chip" "n = 5"
    | "a = act_inputs" "n = 3" | "a = act_outputs" "n = 3" | "a = act_parts" "n = 3"
    | "a = act_single" "n = 1" | "a = act_push3" "n = 3" | "a = act_push2" "n = 2"
    | "a = act_chipcall" "n = 5" | "a = act_argument" "n = 3"
    by (auto simp: productions_def)
  then show ?thesis
  proof cases
    case 1 with assms(4) y [of 0 0] show ?thesis by (auto simp: act_copy_def)
  next
    case 2 with assms(4) y [of 0 4] show ?thesis by (auto simp: act_chip_def)
  next
    case 3 with assms(4) y [of 0 2] show ?thesis
      by (auto simp: act_inputs_def dest!: push_spread_loc)
  next
    case 4 with assms(4) y [of 0 2] show ?thesis
      by (auto simp: act_outputs_def dest!: push_spread_loc)
  next
    case 5 with assms(4) y [of 0 2] show ?thesis
      by (auto simp: act_parts_def dest!: push_spread_loc)
  next
    case 6 with assms(4) y [of 0 0] show ?thesis by (auto simp: act_single_def)
  next
    case 7 with assms(4) y [of 0 2] show ?thesis
      by (auto simp: act_push3_def dest!: push_result_loc)
  next
    case 8 with assms(4) y [of 0 1] show ?thesis
      by (auto simp: act_push2_def dest!: push_result_loc)
  next
    case 9 with assms(4) y [of 0 4] show ?thesis by (auto simp: act_chipcall_def)
  next
    case 10 with assms(4) y [of 0 2] show ?thesis by (auto simp: act_argument_def)
  qed
qed

lemma run_action_loc:
  assumes "(lhs, n, act) \<in> set productions" and "length es = n"
    and "list_all (\<lambda>e. oloc_ok s (eloc e)) es" and "run_action lhs act es g = (thr, g', e)"
  shows "oloc_ok s (eloc e) \<and> (thr = None \<or> thr = Some TypeError)"
proof (cases act)
  case None
  with assms(4) show ?thesis by (auto simp: run_action_def oloc_ok_def)
next
  case (Some a)
  let ?ls = "if captureLocations g then map eloc es else map (\<lambda>e. None) es"
  obtain thr0 g0 where r: "a (map entry_value es) ?ls g = (thr0, g0)"
    by (cases "a (map entry_value es) ?ls g")
  have len: "length ?ls = n" using assms(2) by simp
  have all: "list_all (oloc_ok s) ?ls"
    using assms(3) by (simp add: list_all_iff oloc_ok_def)
  from action_loc [OF assms(1) [unfolded Some] len all r]
  have "oloc_ok s (yyresultloc g0)" "thr0 = None \<or> thr0 = Some TypeError" by simp_all
  with assms(4) Some r show ?thesis
    by (auto simp: run_action_def Let_def oloc_ok_def)
qed

lemma pop_entries_list_all:
  "list_all (\<lambda>(e, n). P e) st \<Longrightarrow> pop_entries k st = Some (es, st')
     \<Longrightarrow> list_all P es \<and> list_all (\<lambda>(e, n). P e) st'"
  by (induction k st arbitrary: es st' rule: pop_entries.induct)
    (auto split: option.splits)

lemma reduce_stack_loc:
  assumes "list_all (\<lambda>(e, n). oloc_ok s (eloc e)) st"
  shows "case reduce_stack p st g of
           Inl (e, g') \<Rightarrow> e = TypeError
         | Inr (st', g') \<Rightarrow> list_all (\<lambda>(e, n). oloc_ok s (eloc e)) st'"
proof (cases "p \<ge> length productions")
  case True
  then show ?thesis by (simp add: reduce_stack_def)
next
  case False
  obtain lhs n act where pr: "productions ! p = (lhs, n, act)"
    by (cases "productions ! p")
  from False pr have mem: "(lhs, n, act) \<in> set productions"
    by (metis nth_mem not_le)
  show ?thesis
  proof (cases "pop_entries n st")
    case None
    with False pr show ?thesis by (simp add: reduce_stack_def)
  next
    case (Some r)
    obtain es st' where r: "r = (es, st')" by (cases r)
    with Some have pop: "pop_entries n st = Some (es, st')" by simp
    from pop_entries_length [OF pop] have len: "length es = n" by simp
    from pop_entries_list_all [OF assms pop]
    have es: "list_all (\<lambda>e. oloc_ok s (eloc e)) es"
      and st': "list_all (\<lambda>(e, n). oloc_ok s (eloc e)) st'" by simp_all
    obtain thr g' e where res: "run_action lhs act es g = (thr, g', e)"
      by (cases "run_action lhs act es g")
    from run_action_loc [OF mem len es res]
    have "oloc_ok s (eloc e)" "thr = None \<or> thr = Some TypeError" by simp_all
    with False pr pop res st' show ?thesis
      by (auto simp: reduce_stack_def split: option.splits entry.splits)
  qed
qed

text \<open>
  The exceptions of \<open>parse\<close> that are right for the input \<open>s\<close>: the one for an input that
  ends too early, which has no location; the lexical error \<open>lex_error s\<close>; and the one
  that names, for a token that the tokenizer has delivered, the text of the token with
  the line and the column of the offset where the token starts.
\<close>

definition parse_error_ok :: "string \<Rightarrow> error \<Rightarrow> bool" where
  "parse_error_ok s e =
     (e = unexpectedEndOfInput
      \<or> (e = lex_error s \<and> last (match_starts s) < length s)
      \<or> (\<exists>k t l. nth_token (initString s) k = Inr t \<and> tloc t = Some l \<and> located s t
            \<and> e = throwUnexpectedToken (initString s) (tvalue t)
                    (line_of s (startOffset l)) (column_of s (startOffset l))))"

definition conf_ok :: "string \<Rightarrow> config \<Rightarrow> bool" where
  "conf_ok s c =
     (case c of (st, token, tk, g) \<Rightarrow>
        (\<exists>k. nth_call (initString s) k = Inr (token, tk))
        \<and> list_all (\<lambda>(e, n). oloc_ok s (eloc e)) st)"

fun step_ok :: "string \<Rightarrow> config + outcome \<Rightarrow> bool" where
  "step_ok s (Inl c) = conf_ok s c"
| "step_ok s (Inr (Inl e, g)) = (e = TypeError \<or> parse_error_ok s e)"
| "step_ok s (Inr (Inr v, g)) = True"

lemma unexpectedToken_ok:
  assumes "nth_call (initString s) k = Inr (token, tk)"
  shows "parse_error_ok s (unexpectedToken tk token)"
proof (cases "ttype token = T_EOF")
  case True
  then show ?thesis by (simp add: unexpectedToken_def parse_error_ok_def)
next
  case False
  from calls_ok [of s k] assms False have s: "tstring tk = s" and lo: "located s token"
    by simp_all
  from lo obtain l where l: "tloc token = Some l" "startLine l = line_of s (startOffset l)"
    "startColumn l = column_of s (startOffset l)"
    by (auto simp: located_def split: option.splits)
  have "throwUnexpectedToken tk = throwUnexpectedToken (initString s)"
    by (rule throwUnexpectedToken_cong) (simp add: initString_def s)
  with False l have "unexpectedToken tk token =
      throwUnexpectedToken (initString s) (tvalue token)
        (line_of s (startOffset l)) (column_of s (startOffset l))"
    by (simp add: unexpectedToken_def)
  moreover from assms have "nth_token (initString s) k = Inr token"
    by (simp add: nth_token_call)
  ultimately show ?thesis using l(1) lo by (auto simp: parse_error_ok_def)
qed

lemma continue_ok: "conf_ok s c \<Longrightarrow> step_ok s (continue c)"
  by (cases c) (simp add: continue_def)

lemma parse_step_ok:
  assumes "conf_ok s c"
  shows "step_ok s (parse_step c)"
proof -
  obtain st token tk g where c: "c = (st, token, tk, g)" by (cases c)
  from assms c obtain k where k: "nth_call (initString s) k = Inr (token, tk)"
    and locs: "list_all (\<lambda>(e, n). oloc_ok s (eloc e)) st"
    by (auto simp: conf_ok_def)
  note ut = unexpectedToken_ok [OF k]
  show ?thesis
  proof (cases "table_row (top_state st)")
    case None
    then show ?thesis by (simp add: c parse_step_def)
  next
    case (Some row)
    show ?thesis
    proof (cases "map_of row (tokens (ttype token))")
      case None
      with Some ut show ?thesis by (simp add: c parse_step_def)
    next
      case (Some en)
      note row = \<open>table_row (top_state st) = Some row\<close>
      show ?thesis
      proof (cases en)
        case (Shift n)
        from calls_ok [of s k] k have tl: "oloc_ok s (tloc token)"
          by (cases "ttype token = T_EOF")
            (simp_all add: located_loc_ok, simp add: EOF_TOKEN_def oloc_ok_def)
        let ?st = "(\<lparr>symbol = tokens (ttype token), semanticValue = Some (Str (tvalue token)),
                     eloc = (if captureLocations g then tloc token else None)\<rparr>, n) # st"
        from tl locs have locs': "list_all (\<lambda>(e, n). oloc_ok s (eloc e)) ?st"
          by (simp add: oloc_ok_def)
        note ks = nth_call_Suc [OF k]
        have "step_ok s (case getNextToken tk of
                           Inl e \<Rightarrow> Inr (Inl e, g)
                         | Inr (token', tk') \<Rightarrow> continue (?st, token', tk', g))"
        proof (cases "getNextToken tk")
          case (Inl e)
          with calls_ok [of s "Suc k"] ks have "parse_error_ok s e"
            by (simp add: parse_error_ok_def)
          with Inl show ?thesis by simp
        next
          case (Inr r)
          obtain t' tk' where r: "r = (t', tk')" by (cases r)
          with Inr ks have "nth_call (initString s) (Suc k) = Inr (t', tk')" by simp
          with locs' have "conf_ok s (?st, t', tk', g)"
            unfolding conf_ok_def by blast
          from continue_ok [OF this] Inr r show ?thesis by simp
        qed
        with row Some Shift show ?thesis
          by (simp add: c parse_step_def Let_def)
      next
        case (Reduce p)
        have "step_ok s (reduce p c)"
        proof (cases "reduce_stack p st g")
          case (Inl eg)
          with reduce_stack_loc [OF locs, of p g] show ?thesis
            by (cases eg) (simp add: reduce_def c)
        next
          case (Inr sg)
          obtain st' g' where sg: "sg = (st', g')" by (cases sg)
          with reduce_stack_loc [OF locs, of p g] Inr k
          have "conf_ok s (st', token, tk, g')"
            unfolding conf_ok_def by auto
          from continue_ok [OF this] Inr sg show ?thesis
            by (simp add: reduce_def c)
        qed
        with row Some Reduce show ?thesis
          by (simp add: c parse_step_def)
      next
        case Accept
        with row Some ut show ?thesis
          by (cases st rule: remdups_adj.cases)
            (auto simp: c parse_step_def split: option.splits)
      next
        case (Goto n)
        with row Some continue_ok [OF assms] show ?thesis
          by (simp add: c parse_step_def)
      qed
    qed
  qed
qed

lemma parse_run_ok: "step_ok s (parse_run s g n)"
proof (induction n)
  case 0
  show ?case
  proof (cases "getNextToken (initString s)")
    case (Inl e)
    with calls_ok [of s 0] show ?thesis by (simp add: parse_error_ok_def)
  next
    case (Inr r)
    obtain t tk where r: "r = (t, tk)" by (cases r)
    with Inr have "nth_call (initString s) 0 = Inr (t, tk)" by simp
    then have "\<exists>k. nth_call (initString s) k = Inr (t, tk)" ..
    then have "conf_ok s ([], t, tk, g)" by (simp add: conf_ok_def)
    with Inr r show ?thesis by simp
  qed
next
  case (Suc n)
  show ?case
  proof (cases "parse_run s g n")
    case (Inl c)
    with Suc parse_step_ok [of s c] show ?thesis by simp
  next
    case (Inr r)
    with Suc show ?thesis by simp
  qed
qed

text \<open>
  What the parser holds after any number of iterations: stack entries whose locations
  are right for the input and a current token that is located in it; and if the call
  has ended with an exception, the exception is right for the input.
\<close>

fun run_located :: "string \<Rightarrow> config + outcome \<Rightarrow> bool" where
  "run_located s (Inl (st, token, tk, g)) =
     (list_all (\<lambda>(e, n). oloc_ok s (eloc e)) st \<and> (ttype token = T_EOF \<or> located s token))"
| "run_located s (Inr (Inl e, g)) = parse_error_ok s e"
| "run_located s (Inr (Inr v, g)) = True"

lemma parse_run_located: "run_located s (parse_run s g n)"
proof (cases "parse_run s g n")
  case (Inl c)
  obtain st token tk g' where c: "c = (st, token, tk, g')" by (cases c)
  from parse_run_ok [of s g n] Inl c obtain k where
    k: "nth_call (initString s) k = Inr (token, tk)"
    and locs: "list_all (\<lambda>(e, n). oloc_ok s (eloc e)) st"
    by (auto simp: conf_ok_def)
  from calls_ok [of s k] k have "ttype token = T_EOF \<or> located s token"
    by (auto split: if_splits)
  with locs Inl c show ?thesis by simp
next
  case (Inr r)
  obtain res g' where r: "r = (res, g')" by (cases r)
  show ?thesis
  proof (cases res)
    case (Inl e)
    from parse_run_parse [of s g n] Inr r Inl have "parse s g = Some (Inl e, g')" by simp
    from parse_no_TypeError [OF this] parse_run_ok [of s g n] Inr r Inl
    show ?thesis by simp
  next
    case (Inr v)
    with \<open>parse_run s g n = Inr r\<close> r show ?thesis by simp
  qed
qed

subsection \<open>The message of an exception\<close>






subsection \<open>Inputs that the tokenizer rejects\<close>









subsection \<open>The exceptions of \<open>parse\<close>\<close>




section \<open>Claims settled by running the parser\<close>

text \<open>
  C10: parsing \<open>CHIP Foo { IN a IN b; }\<close> in the freshly loaded module throws at the second
  \<open>IN\<close>: the error is the one \<open>throwUnexpectedToken\<close> builds for the token text \<open>IN\<close>,
  line 1 and column 16; offset 16 is where the second \<open>IN\<close> starts; and the message
  echoes the input line, puts a caret under that \<open>IN\<close> and ends with \<open>1:16\<close>.
\<close>

theorem parse_error_at_second_IN:
  "returned (parse ''CHIP Foo { IN a IN b; }'' initial_globals)
     = Some (Inl (throwUnexpectedToken (initString ''CHIP Foo { IN a IN b; }'') ''IN'' 1 16))
   \<and> take 16 ''CHIP Foo { IN a IN b; }'' = ''CHIP Foo { IN a ''
   \<and> drop 16 ''CHIP Foo { IN a IN b; }'' = ''IN b; }''
   \<and> throwUnexpectedToken (initString ''CHIP Foo { IN a IN b; }'') ''IN'' 1 16
     = SyntaxError
         ([newline, newline] @ ''CHIP Foo { IN a IN b; }'' @ [newline]
          @ ''                ^'' @ [newline]
          @ ''Unexpected token: '' @ [CHR 0x22] @ ''IN'' @ [CHR 0x22] @ '' at 1:16.'')"
  by code_simp

definition mux_hdl :: string where
  \<comment> \<open>the Mux chip of the repository: the HDL text of the file, comments included\<close>
  \<open>mux_hdl = ''// This file is part of www.nand2tetris.org\<newline>// and the book "The Elements of Computing Systems"\<newline>// by Nisan and Schocken, MIT Press.\<newline>\<newline>/**\<newline> * Multiplexor:\<newline> * out = a if sel == 0\<newline> *       b otherwise\<newline> */\<newline>\<newline>CHIP Mux {\<newline>  IN a, b, sel;\<newline>  OUT out;\<newline>\<newline>  PARTS:\<newline>\<newline>  Not(in=sel, out=nel);\<newline>  And(a=a, b=nel, out=A);\<newline>  And(a=b, b=sel, out=B);\<newline>  Or(a=A, b=B, out=out);\<newline>}\<newline>''\<close>

text \<open>
  C1: parsing the Mux text in the freshly loaded module returns a Chip named \<open>Mux\<close>;
  read right after the call, its inputs are \<open>a\<close>, \<open>b\<close>, \<open>sel\<close>, its outputs are \<open>out\<close>, and its
  parts are the four ChipCalls \<open>Not\<close>, \<open>And\<close>, \<open>And\<close>, \<open>Or\<close> with their Argument records, all
  in source order.
\<close>

theorem parse_mux:
  "returned (parse mux_hdl initial_globals) =
     Some (Inr (Chip (Str ''Mux'')
       (Array [Str ''a'', Str ''b'', Str ''sel''])
       (Array [Str ''out''])
       (Array
        [ChipCall (Str ''Not'')
           (Array [Argument (Str ''in'') (Str ''sel''), Argument (Str ''out'') (Str ''nel'')]),
         ChipCall (Str ''And'')
           (Array [Argument (Str ''a'') (Str ''a''), Argument (Str ''b'') (Str ''nel''),
                   Argument (Str ''out'') (Str ''A'')]),
         ChipCall (Str ''And'')
           (Array [Argument (Str ''a'') (Str ''b''), Argument (Str ''b'') (Str ''sel''),
                   Argument (Str ''out'') (Str ''B'')]),
         ChipCall (Str ''Or'')
           (Array [Argument (Str ''a'') (Str ''A''), Argument (Str ''b'') (Str ''B''),
                   Argument (Str ''out'') (Str ''out'')])])))"
proof -
  have "lx_parse mux_hdl initial_globals =
     Some (Inr (Chip (Str ''Mux'') (Ref RInputs) (Ref ROutputs) (Ref RParts)),
       \<lparr>captureLocations = False,
        yyresult = Chip (Str ''Mux'') (Ref RInputs) (Ref ROutputs) (Ref RParts),
        yyresultloc = None,
        inputs = [Str ''a'', Str ''b'', Str ''sel''],
        outputs = [Str ''out''],
        parts =
        [ChipCall (Str ''Not'')
           (Array [Argument (Str ''in'') (Str ''sel''), Argument (Str ''out'') (Str ''nel'')]),
         ChipCall (Str ''And'')
           (Array [Argument (Str ''a'') (Str ''a''), Argument (Str ''b'') (Str ''nel''),
                   Argument (Str ''out'') (Str ''A'')]),
         ChipCall (Str ''And'')
           (Array [Argument (Str ''a'') (Str ''b''), Argument (Str ''b'') (Str ''sel''),
                   Argument (Str ''out'') (Str ''B'')]),
         ChipCall (Str ''Or'')
           (Array [Argument (Str ''a'') (Str ''A''), Argument (Str ''b'') (Str ''B''),
                   Argument (Str ''out'') (Str ''out'')])]\<rparr>)"
    by code_simp
  from parse_returns [OF this] show ?thesis
    by (simp add: get_array_def)
qed

text \<open>
  C2 (the code does not do this): two successive calls of \<open>parse\<close> on the same text. The
  second call returns a Chip whose inputs, outputs and parts hold every element twice,
  and the Chip returned by the first call, read after the second call, has changed with
  it: both results refer to the module-level arrays, which are never emptied.
\<close>

theorem parse_twice_accumulates:
  "(case parse ''CHIP A { IN a; OUT b; PARTS: X(p=q); }'' initial_globals of
      Some (Inr v1, g1) \<Rightarrow>
        (case parse ''CHIP A { IN a; OUT b; PARTS: X(p=q); }'' g1 of
           Some (Inr v2, g2) \<Rightarrow>
             deref g1 v1 =
               Chip (Str ''A'') (Array [Str ''a'']) (Array [Str ''b''])
                 (Array [ChipCall (Str ''X'') (Array [Argument (Str ''p'') (Str ''q'')])])
             \<and> deref g2 v2 =
               Chip (Str ''A'') (Array [Str ''a'', Str ''a'']) (Array [Str ''b'', Str ''b''])
                 (Array [ChipCall (Str ''X'') (Array [Argument (Str ''p'') (Str ''q'')]),
                         ChipCall (Str ''X'') (Array [Argument (Str ''p'') (Str ''q'')])])
             \<and> deref g2 v1 = deref g2 v2
         | _ \<Rightarrow> False)
    | _ \<Rightarrow> False)"
  by code_simp

text \<open>
  C3 fails: a chip body with no section is rejected at the closing brace, and a body
  with four sections is rejected at the fourth.
\<close>

theorem sections_counterexample:
  "returned (parse ''CHIP A { }'' initial_globals)
     = Some (Inl (throwUnexpectedToken (initString ''CHIP A { }'') ''}'' 1 9))
   \<and> returned (parse ''CHIP A { IN a; OUT b; PARTS: X(p=q); IN c; }'' initial_globals)
     = Some (Inl (throwUnexpectedToken
                    (initString ''CHIP A { IN a; OUT b; PARTS: X(p=q); IN c; }'') ''IN'' 1 37))"
  by code_simp



text \<open>
  C6 fails: the token \<open>CHIP\<close> at the very start of the input, the first character of
  line 1, is reported at column 0.
\<close>

theorem column_counterexample:
  "first_token ''CHIP Foo'' =
     Inr \<lparr>ttype = T_CHIP, tvalue = ''CHIP'',
          tloc = Some \<lparr>startOffset = 0, endOffset = 4, startLine = 1, endLine = 1,
                       startColumn = 0, endColumn = 4\<rparr>\<rparr>"
  by code_simp

text \<open>
  C7 fails: a chip named \<open>IN\<close> with pins named \<open>CHIP\<close>, \<open>OUT\<close>, \<open>PARTS\<close> and \<open>IN\<close> parses, and so
  does a part \<open>true(false=true)\<close>.
\<close>

theorem keyword_names_counterexample:
  "returned (parse ''CHIP IN { IN CHIP, OUT; OUT PARTS, IN; PARTS: true(false=true); }''
       initial_globals) =
     Some (Inr (Chip (Str ''IN'')
       (Array [Str ''CHIP'', Str ''OUT''])
       (Array [Str ''PARTS'', Str ''IN''])
       (Array [ChipCall (Str ''true'') (Array [Argument (Str ''false'') (Str ''true'')])])))"
  by code_simp

text \<open>
  C8 fails: \<open>OUTx\<close> is lexed as the keyword \<open>OUT\<close> (followed by an identifier \<open>x\<close>), and
  \<open>1a\<close>, which starts with a digit, is lexed as an identifier.
\<close>

theorem identifier_counterexample:
  "first_token ''OUTx'' =
     Inr \<lparr>ttype = T_OUT, tvalue = ''OUT'',
          tloc = Some \<lparr>startOffset = 0, endOffset = 3, startLine = 1, endLine = 1,
                       startColumn = 0, endColumn = 3\<rparr>\<rparr>
   \<and> first_token ''1a'' =
     Inr \<lparr>ttype = T_ID, tvalue = ''1a'',
          tloc = Some \<lparr>startOffset = 0, endOffset = 2, startLine = 1, endLine = 1,
                       startColumn = 0, endColumn = 2\<rparr>\<rparr>"
  by code_simp


text \<open>
  C6, as the code has it. On every input \<open>s\<close>:
  every token that the tokenizer delivers, at any call, has as offsets the 0-based
  positions that delimit its text, as lines the 1-based line numbers of these offsets
  and as columns their 0-based columns (\<open>located\<close>), and a lexical error names the first
  character that no rule matches with its line and column (\<open>lex_error\<close>);
  after any number of iterations of the loop of \<open>parse\<close>, the locations of the stack
  entries (shifted tokens and \<open>yyloc\<close> results) are right in the same sense and the
  current token is located, and an exception of \<open>parse\<close> is the one without location for
  the end of the input, the lexical error, or the one that names a delivered token with
  the line and the column of the offset where it starts (\<open>run_located\<close>);
  the call of \<open>parse\<close> ends with the outcome of this run.
  The line of an offset is one more than the number of line feeds before it, its
  column is the number of characters after the last of these line feeds: offset 0 is
  at line 1, column 0, and the offset that follows a line feed is at column 0.
\<close>

theorem parse_locations:
  "(case nth_token (initString s) n of
      Inl e \<Rightarrow> e = lex_error s \<and> last (match_starts s) < length s
    | Inr t \<Rightarrow> ttype t = T_EOF \<or> located s t)
   \<and> run_located s (parse_run s g k)
   \<and> (\<exists>m r. parse_run s g m = Inr r \<and> parse s g = Some r)
   \<and> line_of s 0 = 1 \<and> column_of s 0 = 0
   \<and> (0 < i \<and> i \<le> length s \<and> s ! (i - 1) = newline \<longrightarrow> column_of s i = 0)"
proof -
  from calls_ok [of s n]
  have "case nth_token (initString s) n of
      Inl e \<Rightarrow> e = lex_error s \<and> last (match_starts s) < length s
    | Inr t \<Rightarrow> ttype t = T_EOF \<or> located s t"
    by (auto simp: nth_token_call split: sum.splits if_splits)
  with parse_run_located [of s g k] parse_run_ends [of s g] column_of_after_newline [of i s]
  show ?thesis by simp
qed

theorem parse_locations_witness:
  "nth_token (initString ''CHIP A {\<newline>IN a;\<newline>x'') 6 =
     Inr \<lparr>ttype = T_ID, tvalue = ''x'',
          tloc = Some \<lparr>startOffset = 15, endOffset = 16, startLine = 3, endLine = 3,
                       startColumn = 0, endColumn = 1\<rparr>\<rparr>
   \<and> located ''CHIP A {\<newline>IN a;\<newline>x''
        \<lparr>ttype = T_ID, tvalue = ''x'',
         tloc = Some \<lparr>startOffset = 15, endOffset = 16, startLine = 3, endLine = 3,
                      startColumn = 0, endColumn = 1\<rparr>\<rparr>
   \<and> parse_run ''CHIP A {\<newline>IN a;\<newline>x'' initial_globals 10 =
       Inr (Inl (throwUnexpectedToken (initString ''CHIP A {\<newline>IN a;\<newline>x'') ''x'' 3 0),
            \<lparr>captureLocations = True, yyresult = Array [Str ''a''],
             yyresultloc = Some \<lparr>startOffset = 12, endOffset = 13, startLine = 2,
                                  endLine = 2, startColumn = 3, endColumn = 4\<rparr>,
             inputs = [], outputs = [], parts = []\<rparr>)
   \<and> parse_error_ok ''CHIP A {\<newline>IN a;\<newline>x''
        (throwUnexpectedToken (initString ''CHIP A {\<newline>IN a;\<newline>x'') ''x'' 3 0)
   \<and> 0 < (15::nat) \<and> 15 \<le> length ''CHIP A {\<newline>IN a;\<newline>x''
   \<and> ''CHIP A {\<newline>IN a;\<newline>x'' ! (15 - 1) = newline
   \<and> column_of ''CHIP A {\<newline>IN a;\<newline>x'' 15 = 0"
proof -
  have e: "nth_token (initString ''CHIP A {\<newline>IN a;\<newline>x'') 6 =
     Inr \<lparr>ttype = T_ID, tvalue = ''x'',
          tloc = Some \<lparr>startOffset = 15, endOffset = 16, startLine = 3, endLine = 3,
                       startColumn = 0, endColumn = 1\<rparr>\<rparr>"
    by code_simp
  have r: "parse_run ''CHIP A {\<newline>IN a;\<newline>x'' initial_globals 10 =
       Inr (Inl (throwUnexpectedToken (initString ''CHIP A {\<newline>IN a;\<newline>x'') ''x'' 3 0),
            \<lparr>captureLocations = True, yyresult = Array [Str ''a''],
             yyresultloc = Some \<lparr>startOffset = 12, endOffset = 13, startLine = 2,
                                  endLine = 2, startColumn = 3, endColumn = 4\<rparr>,
             inputs = [], outputs = [], parts = []\<rparr>)"
    by code_simp
  have h: "0 < (15::nat) \<and> 15 \<le> length ''CHIP A {\<newline>IN a;\<newline>x''
      \<and> ''CHIP A {\<newline>IN a;\<newline>x'' ! (15 - 1) = newline"
    by code_simp
  from parse_locations [of "''CHIP A {\<newline>IN a;\<newline>x''" 6 initial_globals 10 15] e r h
  show ?thesis by simp
qed

text \<open>
  C8, as the code has it. A non-empty run of word characters \<open>[A-Za-z0-9_]\<close> (a leading
  digit allowed) that does not begin with \<open>CHIP\<close>, \<open>IN\<close>, \<open>OUT\<close> or \<open>PARTS\<close>, followed by the
  end of the input or by a character that is not a word character, is lexed as one ID
  token with the run as its text, at every offset of every input where the tokenizer
  looks for a token: the start of the input and the end of every token, run of blanks
  or comment that it has matched (\<open>match_starts\<close>). And every ID token that the
  tokenizer delivers, at any call, is a non-empty string of word characters, the text
  of the input between its offsets.
\<close>

theorem identifier_tokens:
  "(n \<in> set (match_starts s) \<and> drop n s = w @ r
      \<and> w \<noteq> [] \<and> list_all is_word w
      \<and> \<not> starts_with ''CHIP'' w \<and> \<not> starts_with ''IN'' w
      \<and> \<not> starts_with ''OUT'' w \<and> \<not> starts_with ''PARTS'' w
      \<and> (r = [] \<or> \<not> is_word (hd r))
    \<longrightarrow> (\<exists>k. nth_token (initString s) k =
          Inr \<lparr>ttype = T_ID, tvalue = w,
               tloc = Some \<lparr>startOffset = n, endOffset = n + length w,
                            startLine = line_of s n, endLine = line_of s (n + length w),
                            startColumn = column_of s n,
                            endColumn = column_of s (n + length w)\<rparr>\<rparr>))
   \<and> (nth_token (initString s) j = Inr t \<and> ttype t = T_ID
    \<longrightarrow> tvalue t \<noteq> [] \<and> list_all is_word (tvalue t) \<and> located s t)"
proof (rule conjI; rule impI)
  assume a: "n \<in> set (match_starts s) \<and> drop n s = w @ r
      \<and> w \<noteq> [] \<and> list_all is_word w
      \<and> \<not> starts_with ''CHIP'' w \<and> \<not> starts_with ''IN'' w
      \<and> \<not> starts_with ''OUT'' w \<and> \<not> starts_with ''PARTS'' w
      \<and> (r = [] \<or> \<not> is_word (hd r))"
  then have "first_match lexRules (w @ r) = Some (w, Some T_ID)"
    using first_match_word_run [of w r] by blast
  with a have fm: "first_match lexRules (drop (cursor (initString s) + n) (tstring (initString s)))
      = Some (w, Some T_ID)"
    by (simp add: initString_def)
  from a have ms: "n \<in> set (match_starts (drop (cursor (initString s)) (tstring (initString s))))"
    by (simp add: initString_def)
  from token_at_start [OF tk_inv_initString ms fm]
  show "\<exists>k. nth_token (initString s) k =
          Inr \<lparr>ttype = T_ID, tvalue = w,
               tloc = Some \<lparr>startOffset = n, endOffset = n + length w,
                            startLine = line_of s n, endLine = line_of s (n + length w),
                            startColumn = column_of s n,
                            endColumn = column_of s (n + length w)\<rparr>\<rparr>"
    by (simp add: initString_def)
next
  assume a: "nth_token (initString s) j = Inr t \<and> ttype t = T_ID"
  with calls_ok [of s j] have "located s t" "lexeme_ok T_ID (tvalue t)"
    by (auto simp: nth_token_call split: sum.splits)
  then show "tvalue t \<noteq> [] \<and> list_all is_word (tvalue t) \<and> located s t"
    by (simp add: lexeme_ok_def)
qed

theorem identifier_tokens_witness:
  "(7 \<in> set (match_starts ''// c\<newline>  x1=_b2'')
      \<and> drop 7 ''// c\<newline>  x1=_b2'' = ''x1'' @ ''=_b2''
      \<and> ''x1'' \<noteq> [] \<and> list_all is_word ''x1''
      \<and> \<not> starts_with ''CHIP'' ''x1'' \<and> \<not> starts_with ''IN'' ''x1''
      \<and> \<not> starts_with ''OUT'' ''x1'' \<and> \<not> starts_with ''PARTS'' ''x1''
      \<and> (''=_b2'' = [] \<or> \<not> is_word (hd ''=_b2'')))
   \<and> (\<exists>k. nth_token (initString ''// c\<newline>  x1=_b2'') k =
          Inr \<lparr>ttype = T_ID, tvalue = ''x1'',
               tloc = Some \<lparr>startOffset = 7, endOffset = 9, startLine = 2, endLine = 2,
                            startColumn = 2, endColumn = 4\<rparr>\<rparr>)
   \<and> nth_token (initString ''// c\<newline>  x1=_b2'') 2 =
        Inr \<lparr>ttype = T_ID, tvalue = ''_b2'',
             tloc = Some \<lparr>startOffset = 10, endOffset = 13, startLine = 2, endLine = 2,
                          startColumn = 5, endColumn = 8\<rparr>\<rparr>
   \<and> ''_b2'' \<noteq> [] \<and> list_all is_word ''_b2''
   \<and> located ''// c\<newline>  x1=_b2''
        \<lparr>ttype = T_ID, tvalue = ''_b2'',
         tloc = Some \<lparr>startOffset = 10, endOffset = 13, startLine = 2, endLine = 2,
                      startColumn = 5, endColumn = 8\<rparr>\<rparr>"
proof -
  have h: "7 \<in> set (match_starts ''// c\<newline>  x1=_b2'')
      \<and> drop 7 ''// c\<newline>  x1=_b2'' = ''x1'' @ ''=_b2''
      \<and> ''x1'' \<noteq> [] \<and> list_all is_word ''x1''
      \<and> \<not> starts_with ''CHIP'' ''x1'' \<and> \<not> starts_with ''IN'' ''x1''
      \<and> \<not> starts_with ''OUT'' ''x1'' \<and> \<not> starts_with ''PARTS'' ''x1''
      \<and> (''=_b2'' = [] \<or> \<not> is_word (hd ''=_b2''))"
    by code_simp
  have l: "line_of ''// c\<newline>  x1=_b2'' 7 = 2 \<and> column_of ''// c\<newline>  x1=_b2'' 7 = 2
      \<and> line_of ''// c\<newline>  x1=_b2'' (7 + length ''x1'') = 2
      \<and> column_of ''// c\<newline>  x1=_b2'' (7 + length ''x1'') = 4
      \<and> 7 + length ''x1'' = 9"
    by code_simp
  have e: "nth_token (initString ''// c\<newline>  x1=_b2'') 2 =
        Inr \<lparr>ttype = T_ID, tvalue = ''_b2'',
             tloc = Some \<lparr>startOffset = 10, endOffset = 13, startLine = 2, endLine = 2,
                          startColumn = 5, endColumn = 8\<rparr>\<rparr>"
    by code_simp
  from identifier_tokens [of 7 "''// c\<newline>  x1=_b2''" "''x1''" "''=_b2''" 2
      "\<lparr>ttype = T_ID, tvalue = ''_b2'',
             tloc = Some \<lparr>startOffset = 10, endOffset = 13, startLine = 2, endLine = 2,
                          startColumn = 5, endColumn = 8\<rparr>\<rparr>"] h l e
  show ?thesis by simp
qed






text \<open>
  C7, as the code has it. \<open>CHIP\<close>, \<open>IN\<close>, \<open>OUT\<close> and \<open>PARTS\<close> are keywords of the tokenizer,
  reserved only where the grammar asks for an ID token. Every part that a call of
  \<open>parse\<close> has appended is a ChipCall whose name, argument names and argument values are
  texts of ID tokens (\<open>is_call\<close>, \<open>is_ident\<close>), and none of the four keywords is the text
  of an ID token: no text with a keyword as a part name, an argument name or an
  argument value is parsed. But each of the four is accepted as the name of the chip
  and as the name of a declared pin. \<open>true\<close> and \<open>false\<close> are not keywords: they are
  texts of ID tokens, accepted as chip name, pin name, part name, argument name and
  argument value.
\<close>

theorem keyword_positions:
  "(parse s g = Some (Inr v, g') \<longrightarrow>
      list_all is_call (drop (length (parts g)) (parts g')))
   \<and> list_all (\<lambda>kw. \<not> is_ident (Str kw)) [''CHIP'', ''IN'', ''OUT'', ''PARTS'']
   \<and> list_all (\<lambda>kw. is_ident (Str kw)) [''true'', ''false'']
   \<and> list_all (\<lambda>kw.
         returned (parse (''CHIP '' @ kw @ '' { IN '' @ kw @ ''; OUT '' @ kw @ ''; PARTS: X(a=b); }'')
                     initial_globals)
         = Some (Inr (Chip (Str kw) (Array [Str kw]) (Array [Str kw])
                    (Array [ChipCall (Str ''X'') (Array [Argument (Str ''a'') (Str ''b'')])]))))
       [''CHIP'', ''IN'', ''OUT'', ''PARTS'', ''true'', ''false'']
   \<and> list_all (\<lambda>kw.
         returned (parse (''CHIP A { IN a; OUT b; PARTS: '' @ kw @ ''('' @ kw @ ''='' @ kw @ ''); }'')
                     initial_globals)
         = Some (Inr (Chip (Str ''A'') (Array [Str ''a'']) (Array [Str ''b''])
                    (Array [ChipCall (Str kw) (Array [Argument (Str kw) (Str kw)])]))))
       [''true'', ''false'']"
proof (intro conjI impI)
  assume "parse s g = Some (Inr v, g')"
  from parse_outcome [OF this]
  show "list_all is_call (drop (length (parts g)) (parts g'))"
    by (simp add: globals_ok_def extends_def)
next
  show "list_all (\<lambda>kw. \<not> is_ident (Str kw)) [''CHIP'', ''IN'', ''OUT'', ''PARTS'']"
    by (simp add: lexeme_ok_def starts_with_def)
next
  show "list_all (\<lambda>kw. is_ident (Str kw)) [''true'', ''false'']"
    by (simp add: lexeme_ok_def starts_with_def is_word_def)
next
  show "list_all (\<lambda>kw.
         returned (parse (''CHIP '' @ kw @ '' { IN '' @ kw @ ''; OUT '' @ kw @ ''; PARTS: X(a=b); }'')
                     initial_globals)
         = Some (Inr (Chip (Str kw) (Array [Str kw]) (Array [Str kw])
                    (Array [ChipCall (Str ''X'') (Array [Argument (Str ''a'') (Str ''b'')])]))))
       [''CHIP'', ''IN'', ''OUT'', ''PARTS'', ''true'', ''false'']"
    by code_simp
next
  show "list_all (\<lambda>kw.
         returned (parse (''CHIP A { IN a; OUT b; PARTS: '' @ kw @ ''('' @ kw @ ''='' @ kw @ ''); }'')
                     initial_globals)
         = Some (Inr (Chip (Str ''A'') (Array [Str ''a'']) (Array [Str ''b''])
                    (Array [ChipCall (Str kw) (Array [Argument (Str kw) (Str kw)])]))))
       [''true'', ''false'']"
    by code_simp
qed

theorem keyword_positions_witness:
  "parse ''CHIP IN { IN CHIP, OUT; OUT PARTS, IN; PARTS: true(false=true); }'' initial_globals =
     Some (Inr (Chip (Str ''IN'') (Ref RInputs) (Ref ROutputs) (Ref RParts)),
       \<lparr>captureLocations = True,
        yyresult = Chip (Str ''IN'') (Ref RInputs) (Ref ROutputs) (Ref RParts),
        yyresultloc = Some \<lparr>startOffset = 0, endOffset = 65, startLine = 1, endLine = 1,
                             startColumn = 0, endColumn = 65\<rparr>,
        inputs = [Str ''CHIP'', Str ''OUT''], outputs = [Str ''PARTS'', Str ''IN''],
        parts = [ChipCall (Str ''true'') (Array [Argument (Str ''false'') (Str ''true'')])]\<rparr>)
   \<and> list_all is_call
        [ChipCall (Str ''true'') (Array [Argument (Str ''false'') (Str ''true'')])]"
proof -
  have p: "parse ''CHIP IN { IN CHIP, OUT; OUT PARTS, IN; PARTS: true(false=true); }''
        initial_globals =
     Some (Inr (Chip (Str ''IN'') (Ref RInputs) (Ref ROutputs) (Ref RParts)),
       \<lparr>captureLocations = True,
        yyresult = Chip (Str ''IN'') (Ref RInputs) (Ref ROutputs) (Ref RParts),
        yyresultloc = Some \<lparr>startOffset = 0, endOffset = 65, startLine = 1, endLine = 1,
                             startColumn = 0, endColumn = 65\<rparr>,
        inputs = [Str ''CHIP'', Str ''OUT''], outputs = [Str ''PARTS'', Str ''IN''],
        parts = [ChipCall (Str ''true'') (Array [Argument (Str ''false'') (Str ''true'')])]\<rparr>)"
    by code_simp
  from keyword_positions [of "''CHIP IN { IN CHIP, OUT; OUT PARTS, IN; PARTS: true(false=true); }''"
      initial_globals "Chip (Str ''IN'') (Ref RInputs) (Ref ROutputs) (Ref RParts)"
      "\<lparr>captureLocations = True,
        yyresult = Chip (Str ''IN'') (Ref RInputs) (Ref ROutputs) (Ref RParts),
        yyresultloc = Some \<lparr>startOffset = 0, endOffset = 65, startLine = 1, endLine = 1,
                             startColumn = 0, endColumn = 65\<rparr>,
        inputs = [Str ''CHIP'', Str ''OUT''], outputs = [Str ''PARTS'', Str ''IN''],
        parts = [ChipCall (Str ''true'') (Array [Argument (Str ''false'') (Str ''true'')])]\<rparr>"] p
  have "list_all is_call
        [ChipCall (Str ''true'') (Array [Argument (Str ''false'') (Str ''true'')])]"
    by (simp add: initial_globals_def)
  with p show ?thesis by blast
qed

end
